theory Spec2Isabelle
  imports Complex_Main "HOL-Library.Sublist"
begin

section \<open>Characters, errors and tokens\<close>

text \<open>
  The classification functions of \<^verbatim>\<open><cctype>\<close> in the "C" locale, the only locale the
  program runs in (it never calls setlocale).
\<close>

definition isdigit :: "char \<Rightarrow> bool" where
  "isdigit c = (c \<in> set ''0123456789'')"

definition isalpha :: "char \<Rightarrow> bool" where
  "isalpha c = (c \<in> set ''abcdefghijklmnopqrstuvwxyzABCDEFGHIJKLMNOPQRSTUVWXYZ'')"

definition isalnum :: "char \<Rightarrow> bool" where
  "isalnum c = (isalpha c \<or> isdigit c)"

definition isspace :: "char \<Rightarrow> bool" where
  "isspace c = (c \<in> {CHR '' '', CHR 0x09, CHR 0x0A, CHR 0x0B, CHR 0x0C, CHR 0x0D})"

text \<open>
  Every exception of the program is a \<^verbatim>\<open>std::runtime_error\<close> with a message; \<^verbatim>\<open>std::stod\<close>
  adds \<^verbatim>\<open>std::invalid_argument\<close> and \<^verbatim>\<open>std::out_of_range\<close>. All three derive from
  \<^verbatim>\<open>std::exception\<close>; the string is what \<^verbatim>\<open>what()\<close> returns.
\<close>

datatype error = runtime_error string | invalid_argument string | out_of_range string

fun what :: "error \<Rightarrow> string" where
  "what (runtime_error m) = m"
| "what (invalid_argument m) = m"
| "what (out_of_range m) = m"

datatype TokenType =
  NUMBER | IDENTIFIER | PLUS | MINUS | MULTIPLY | DIVIDE | POW
  | LPAREN | RPAREN | EQUAL | COMMA | END

datatype Token = Token (type: TokenType) (val: string)

section \<open>Lexer\<close>

record Lexer =
  input :: string
  pos :: nat

text \<open>
  \<^verbatim>\<open>Lexer::getNextToken\<close>. Each while loop of the source advances \<open>pos\<close> over the longest run
  of characters that satisfy its condition, which is \<open>takeWhile\<close> on the unread input.
  The result is the token and the lexer with its new position, or the exception thrown.
\<close>

definition getNextToken :: "Lexer \<Rightarrow> error + (Token \<times> Lexer)" where
  "getNextToken lx =
    (let p = pos lx + length (takeWhile isspace (drop (pos lx) (input lx))) in
     if p \<ge> length (input lx) then Inr (Token END [], lx\<lparr>pos := p\<rparr>)
     else
       let ch = input lx ! p in
       if isdigit ch \<or> ch = CHR ''.'' then
         let num = takeWhile (\<lambda>c. isdigit c \<or> c = CHR ''.'') (drop p (input lx))
         in Inr (Token NUMBER num, lx\<lparr>pos := p + length num\<rparr>)
       else if isalpha ch then
         let ident = takeWhile (\<lambda>c. isalnum c \<or> c = CHR ''_'') (drop p (input lx))
         in Inr (Token IDENTIFIER ident, lx\<lparr>pos := p + length ident\<rparr>)
       else if ch = CHR ''+'' then Inr (Token PLUS [], lx\<lparr>pos := p + 1\<rparr>)
       else if ch = CHR ''-'' then Inr (Token MINUS [], lx\<lparr>pos := p + 1\<rparr>)
       else if ch = CHR ''*'' then Inr (Token MULTIPLY [], lx\<lparr>pos := p + 1\<rparr>)
       else if ch = CHR ''/'' then Inr (Token DIVIDE [], lx\<lparr>pos := p + 1\<rparr>)
       else if ch = CHR ''('' then Inr (Token LPAREN [], lx\<lparr>pos := p + 1\<rparr>)
       else if ch = CHR '')'' then Inr (Token RPAREN [], lx\<lparr>pos := p + 1\<rparr>)
       else if ch = CHR ''='' then Inr (Token EQUAL [], lx\<lparr>pos := p + 1\<rparr>)
       else if ch = CHR '','' then Inr (Token COMMA [], lx\<lparr>pos := p + 1\<rparr>)
       else Inl (runtime_error (''Unexpected character: '' @ [ch])))"

section \<open>Floating point and the variable environment\<close>

text \<open>
  The program computes on \<^verbatim>\<open>double\<close>. The type of doubles and the operations on it are
  parameters of the model: the four arithmetic operators and negation, the functions of
  \<^verbatim>\<open><cmath>\<close> the evaluator calls, and the conversion of a decimal numeral that
  \<^verbatim>\<open>std::stod\<close> performs. Every theorem that names no particular choice of them holds for
  all, IEEE binary64 among them.
\<close>

record 'd fp_ops =
  fp_add :: "'d \<Rightarrow> 'd \<Rightarrow> 'd"
  fp_sub :: "'d \<Rightarrow> 'd \<Rightarrow> 'd"
  fp_mul :: "'d \<Rightarrow> 'd \<Rightarrow> 'd"
  fp_div :: "'d \<Rightarrow> 'd \<Rightarrow> 'd"
  fp_neg :: "'d \<Rightarrow> 'd"
  std_sin :: "'d \<Rightarrow> 'd"
  std_cos :: "'d \<Rightarrow> 'd"
  std_tan :: "'d \<Rightarrow> 'd"
  std_asin :: "'d \<Rightarrow> 'd"
  std_acos :: "'d \<Rightarrow> 'd"
  std_atan :: "'d \<Rightarrow> 'd"
  std_sinh :: "'d \<Rightarrow> 'd"
  std_cosh :: "'d \<Rightarrow> 'd"
  std_tanh :: "'d \<Rightarrow> 'd"
  std_asinh :: "'d \<Rightarrow> 'd"
  std_acosh :: "'d \<Rightarrow> 'd"
  std_atanh :: "'d \<Rightarrow> 'd"
  std_sqrt :: "'d \<Rightarrow> 'd"
  std_cbrt :: "'d \<Rightarrow> 'd"
  std_exp :: "'d \<Rightarrow> 'd"
  std_log :: "'d \<Rightarrow> 'd"
  std_log10 :: "'d \<Rightarrow> 'd"
  std_log2 :: "'d \<Rightarrow> 'd"
  std_abs :: "'d \<Rightarrow> 'd"
  std_pow :: "'d \<Rightarrow> 'd \<Rightarrow> 'd"
  std_fmod :: "'d \<Rightarrow> 'd \<Rightarrow> 'd"
  strtod_value :: "string \<Rightarrow> error + 'd"

text \<open>
  \<^verbatim>\<open>std::stod\<close> converts the longest prefix of its argument that is a floating-point
  numeral and throws \<^verbatim>\<open>invalid_argument\<close> when there is none. It is only ever called on the
  text of a NUMBER token, which holds nothing but digits and dots, so of the forms
  \<^verbatim>\<open>strtod\<close> accepts only the plain decimal one can occur: digits, at most one dot, digits,
  with a digit on at least one side. \<open>strtod_value\<close> converts such a numeral; it may
  report \<^verbatim>\<open>out_of_range\<close>. The message of \<^verbatim>\<open>invalid_argument\<close> is the one libstdc++ gives.
\<close>

definition decimal_prefix :: "string \<Rightarrow> string option" where
  "decimal_prefix s =
    (let ip = takeWhile isdigit s; rest = drop (length ip) s in
     if rest \<noteq> [] \<and> hd rest = CHR ''.'' then
       let fp = takeWhile isdigit (tl rest) in
       if ip = [] \<and> fp = [] then None else Some (ip @ ''.'' @ fp)
     else if ip = [] then None else Some ip)"

definition stod :: "'d fp_ops \<Rightarrow> string \<Rightarrow> error + 'd" where
  "stod A s =
    (case decimal_prefix s of
       None \<Rightarrow> Inl (invalid_argument ''stod'')
     | Some p \<Rightarrow> strtod_value A p)"

text \<open>
  \<^verbatim>\<open>umapsd\<close>, the \<^verbatim>\<open>unordered_map\<close> from names to doubles, as an association list with the
  newest binding first. A lookup sees the first binding of a name only, so the list reads
  as the map does; its order records the order in which assignments were committed.
\<close>

type_synonym 'd umapsd = "(string \<times> 'd) list"

definition umapsd_find :: "'d umapsd \<Rightarrow> string \<Rightarrow> 'd option" where
  "umapsd_find variables name = map_of variables name"

definition umapsd_assign :: "string \<Rightarrow> 'd \<Rightarrow> 'd umapsd \<Rightarrow> 'd umapsd" where
  "umapsd_assign name v variables = (name, v) # variables"

section \<open>Syntax trees and the parser\<close>

datatype 'd ASTNode =
  NumberNode 'd
  | VariableNode string
  | AssignmentNode string "'d ASTNode"
  | FunctionCallNode string "'d ASTNode list"
  | UnaryOpNode TokenType "'d ASTNode"
  | BinaryOpNode TokenType "'d ASTNode" "'d ASTNode"

record Parser =
  lexer :: Lexer
  curtToken :: Token

definition consume :: "TokenType \<Rightarrow> Parser \<Rightarrow> error + Parser" where
  "consume ty ps =
    (if type (curtToken ps) = ty then
       (case getNextToken (lexer ps) of
          Inl e \<Rightarrow> Inl e
        | Inr (t, lx) \<Rightarrow> Inr \<lparr>lexer = lx, curtToken = t\<rparr>)
     else Inl (runtime_error (''Unexpected token: '' @ val (curtToken ps))))"

function parseExpression :: "'d fp_ops \<Rightarrow> Parser \<Rightarrow> error + ('d ASTNode \<times> Parser)"
  and parseExpression_loop :: "'d fp_ops \<Rightarrow> 'd ASTNode \<Rightarrow> Parser \<Rightarrow> error + ('d ASTNode \<times> Parser)"
  and parseTerm :: "'d fp_ops \<Rightarrow> Parser \<Rightarrow> error + ('d ASTNode \<times> Parser)"
  and parseTerm_loop :: "'d fp_ops \<Rightarrow> 'd ASTNode \<Rightarrow> Parser \<Rightarrow> error + ('d ASTNode \<times> Parser)"
  and parseFactor :: "'d fp_ops \<Rightarrow> Parser \<Rightarrow> error + ('d ASTNode \<times> Parser)"
  and parseFunctionCall :: "'d fp_ops \<Rightarrow> string \<Rightarrow> Parser \<Rightarrow> error + ('d ASTNode \<times> Parser)"
  and parseFunctionCall_loop :: "'d fp_ops \<Rightarrow> 'd ASTNode list \<Rightarrow> Parser \<Rightarrow> error + ('d ASTNode list \<times> Parser)"
where
  "parseExpression A ps =
    (case parseTerm A ps of
       Inl e \<Rightarrow> Inl e
     | Inr (node, ps1) \<Rightarrow> parseExpression_loop A node ps1)"
| "parseExpression_loop A node ps =
    (if type (curtToken ps) = PLUS \<or> type (curtToken ps) = MINUS then
       (let op = type (curtToken ps) in
        case consume op ps of
          Inl e \<Rightarrow> Inl e
        | Inr ps1 \<Rightarrow>
            (case parseTerm A ps1 of
               Inl e \<Rightarrow> Inl e
             | Inr (rhs, ps2) \<Rightarrow> parseExpression_loop A (BinaryOpNode op node rhs) ps2))
     else Inr (node, ps))"
| "parseTerm A ps =
    (case parseFactor A ps of
       Inl e \<Rightarrow> Inl e
     | Inr (node, ps1) \<Rightarrow> parseTerm_loop A node ps1)"
| "parseTerm_loop A node ps =
    (if type (curtToken ps) = MULTIPLY \<or> type (curtToken ps) = DIVIDE then
       (let op = type (curtToken ps) in
        case consume op ps of
          Inl e \<Rightarrow> Inl e
        | Inr ps1 \<Rightarrow>
            (case parseFactor A ps1 of
               Inl e \<Rightarrow> Inl e
             | Inr (rhs, ps2) \<Rightarrow> parseTerm_loop A (BinaryOpNode op node rhs) ps2))
     else Inr (node, ps))"
| "parseFactor A ps =
    (if type (curtToken ps) = MINUS then
       (case consume MINUS ps of
          Inl e \<Rightarrow> Inl e
        | Inr ps1 \<Rightarrow>
            (case parseFactor A ps1 of
               Inl e \<Rightarrow> Inl e
             | Inr (operand, ps2) \<Rightarrow> Inr (UnaryOpNode MINUS operand, ps2)))
     else if type (curtToken ps) = NUMBER then
       (case stod A (val (curtToken ps)) of
          Inl e \<Rightarrow> Inl e
        | Inr v \<Rightarrow>
            (case consume NUMBER ps of
               Inl e \<Rightarrow> Inl e
             | Inr ps1 \<Rightarrow> Inr (NumberNode v, ps1)))
     else if type (curtToken ps) = IDENTIFIER then
       (let name = val (curtToken ps) in
        case consume IDENTIFIER ps of
          Inl e \<Rightarrow> Inl e
        | Inr ps1 \<Rightarrow>
            if type (curtToken ps1) = LPAREN then parseFunctionCall A name ps1
            else if type (curtToken ps1) = EQUAL then
              (case consume EQUAL ps1 of
                 Inl e \<Rightarrow> Inl e
               | Inr ps2 \<Rightarrow>
                   (case parseExpression A ps2 of
                      Inl e \<Rightarrow> Inl e
                    | Inr (v, ps3) \<Rightarrow> Inr (AssignmentNode name v, ps3)))
            else Inr (VariableNode name, ps1))
     else if type (curtToken ps) = LPAREN then
       (case consume LPAREN ps of
          Inl e \<Rightarrow> Inl e
        | Inr ps1 \<Rightarrow>
            (case parseExpression A ps1 of
               Inl e \<Rightarrow> Inl e
             | Inr (node, ps2) \<Rightarrow>
                 (case consume RPAREN ps2 of
                    Inl e \<Rightarrow> Inl e
                  | Inr ps3 \<Rightarrow> Inr (node, ps3))))
     else Inl (runtime_error (''Unexpected token: '' @ val (curtToken ps))))"
| "parseFunctionCall A funcName ps =
    (case consume LPAREN ps of
       Inl e \<Rightarrow> Inl e
     | Inr ps1 \<Rightarrow>
         (case (if type (curtToken ps1) \<noteq> RPAREN then parseFunctionCall_loop A [] ps1
                else Inr ([], ps1)) of
            Inl e \<Rightarrow> Inl e
          | Inr (args, ps2) \<Rightarrow>
              (case consume RPAREN ps2 of
                 Inl e \<Rightarrow> Inl e
               | Inr ps3 \<Rightarrow> Inr (FunctionCallNode funcName args, ps3))))"
| "parseFunctionCall_loop A args ps =
    (case parseExpression A ps of
       Inl e \<Rightarrow> Inl e
     | Inr (arg, ps1) \<Rightarrow>
         if type (curtToken ps1) = COMMA then
           (case consume COMMA ps1 of
              Inl e \<Rightarrow> Inl e
            | Inr ps2 \<Rightarrow> parseFunctionCall_loop A (args @ [arg]) ps2)
         else Inr (args @ [arg], ps1))"
  by pat_completeness auto


definition tokens_left :: "Parser \<Rightarrow> nat" where
  "tokens_left ps =
    (if type (curtToken ps) = END then 0
     else Suc (length (input (lexer ps)) - pos (lexer ps)))"

lemma getNextToken_advances:
  assumes "getNextToken lx = Inr (t, lx')"
  shows "input lx' = input lx"
    and "type t \<noteq> END \<Longrightarrow> pos lx < length (input lx) \<and> pos lx < pos lx'"
proof -
  let ?p = "pos lx + length (takeWhile isspace (drop (pos lx) (input lx)))"
  show "input lx' = input lx"
    using assms by (auto simp: getNextToken_def Let_def split: if_splits)
  assume ne: "type t \<noteq> END"
  have lt: "?p < length (input lx)"
    using assms ne by (auto simp: getNextToken_def Let_def split: if_splits)
  have hd: "drop ?p (input lx) = input lx ! ?p # drop (Suc ?p) (input lx)"
    using lt by (simp add: Cons_nth_drop_Suc)
  have "?p < pos lx'"
    using assms ne lt hd by (auto simp: getNextToken_def Let_def isalnum_def split: if_splits)
  then show "pos lx < length (input lx) \<and> pos lx < pos lx'"
    using lt by simp
qed

lemma consume_less:
  assumes "consume ty ps = Inr ps1" and "ty \<noteq> END"
  shows "tokens_left ps1 < tokens_left ps"
proof -
  from assms obtain t lx where
    g: "getNextToken (lexer ps) = Inr (t, lx)" and
    ps1: "ps1 = \<lparr>lexer = lx, curtToken = t\<rparr>" and ty: "type (curtToken ps) = ty"
    by (auto simp: consume_def split: if_splits sum.splits)
  show ?thesis
    using getNextToken_advances[OF g] ty assms(2)
    by (auto simp: tokens_left_def ps1)
qed

text \<open>
  The parser terminates: no call returns with more input left than it was given, and every
  \<open>consume\<close> of a token other than END leaves less.
\<close>

lemma parse_dom_le:
  "parseExpression_parseExpression_loop_parseTerm_parseTerm_loop_parseFactor_parseFunctionCall_parseFunctionCall_loop_dom (Inl (Inl (A1 :: 'd fp_ops, ps1)))
     \<Longrightarrow> (\<forall>n ps'. parseExpression A1 ps1 = Inr (n, ps') \<longrightarrow> tokens_left ps' \<le> tokens_left ps1)"
  "parseExpression_parseExpression_loop_parseTerm_parseTerm_loop_parseFactor_parseFunctionCall_parseFunctionCall_loop_dom (Inl (Inr (Inl (A2 :: 'd fp_ops, n2, ps2))))
     \<Longrightarrow> (\<forall>n ps'. parseExpression_loop A2 n2 ps2 = Inr (n, ps') \<longrightarrow> tokens_left ps' \<le> tokens_left ps2)"
  "parseExpression_parseExpression_loop_parseTerm_parseTerm_loop_parseFactor_parseFunctionCall_parseFunctionCall_loop_dom (Inl (Inr (Inr (A3 :: 'd fp_ops, ps3))))
     \<Longrightarrow> (\<forall>n ps'. parseTerm A3 ps3 = Inr (n, ps') \<longrightarrow> tokens_left ps' \<le> tokens_left ps3)"
  "parseExpression_parseExpression_loop_parseTerm_parseTerm_loop_parseFactor_parseFunctionCall_parseFunctionCall_loop_dom (Inr (Inl (Inl (A4 :: 'd fp_ops, n4, ps4))))
     \<Longrightarrow> (\<forall>n ps'. parseTerm_loop A4 n4 ps4 = Inr (n, ps') \<longrightarrow> tokens_left ps' \<le> tokens_left ps4)"
  "parseExpression_parseExpression_loop_parseTerm_parseTerm_loop_parseFactor_parseFunctionCall_parseFunctionCall_loop_dom (Inr (Inl (Inr (A5 :: 'd fp_ops, ps5))))
     \<Longrightarrow> (\<forall>n ps'. parseFactor A5 ps5 = Inr (n, ps') \<longrightarrow> tokens_left ps' \<le> tokens_left ps5)"
  "parseExpression_parseExpression_loop_parseTerm_parseTerm_loop_parseFactor_parseFunctionCall_parseFunctionCall_loop_dom (Inr (Inr (Inl (A6 :: 'd fp_ops, f6, ps6))))
     \<Longrightarrow> (\<forall>n ps'. parseFunctionCall A6 f6 ps6 = Inr (n, ps') \<longrightarrow> tokens_left ps' \<le> tokens_left ps6)"
  "parseExpression_parseExpression_loop_parseTerm_parseTerm_loop_parseFactor_parseFunctionCall_parseFunctionCall_loop_dom (Inr (Inr (Inr (A7 :: 'd fp_ops, as7, ps7))))
     \<Longrightarrow> (\<forall>n ps'. parseFunctionCall_loop A7 as7 ps7 = Inr (n, ps') \<longrightarrow> tokens_left ps' \<le> tokens_left ps7)"
proof (induct rule: parseExpression_parseExpression_loop_parseTerm_parseTerm_loop_parseFactor_parseFunctionCall_parseFunctionCall_loop.pinduct
    [where ?P1.0 = "\<lambda>A ps. \<forall>n ps'. parseExpression A ps = Inr (n, ps') \<longrightarrow> tokens_left ps' \<le> tokens_left ps"
       and ?P2.0 = "\<lambda>A nd ps. \<forall>n ps'. parseExpression_loop A nd ps = Inr (n, ps') \<longrightarrow> tokens_left ps' \<le> tokens_left ps"
       and ?P3.0 = "\<lambda>A ps. \<forall>n ps'. parseTerm A ps = Inr (n, ps') \<longrightarrow> tokens_left ps' \<le> tokens_left ps"
       and ?P4.0 = "\<lambda>A nd ps. \<forall>n ps'. parseTerm_loop A nd ps = Inr (n, ps') \<longrightarrow> tokens_left ps' \<le> tokens_left ps"
       and ?P5.0 = "\<lambda>A ps. \<forall>n ps'. parseFactor A ps = Inr (n, ps') \<longrightarrow> tokens_left ps' \<le> tokens_left ps"
       and ?P6.0 = "\<lambda>A f ps. \<forall>n ps'. parseFunctionCall A f ps = Inr (n, ps') \<longrightarrow> tokens_left ps' \<le> tokens_left ps"
       and ?P7.0 = "\<lambda>A as ps. \<forall>n ps'. parseFunctionCall_loop A as ps = Inr (n, ps') \<longrightarrow> tokens_left ps' \<le> tokens_left ps"])
  case (1 A ps)
  show ?case
  proof (intro allI impI)
    fix n ps' assume r: "parseExpression A ps = Inr (n, ps')"
    from r 1(1) obtain nd ps1 where t: "parseTerm A ps = Inr (nd, ps1)"
      and l: "parseExpression_loop A nd ps1 = Inr (n, ps')"
      by (auto simp: parseExpression.psimps split: sum.splits)
    from 1(2) t have "tokens_left ps1 \<le> tokens_left ps" by simp
    moreover from 1(3)[OF t refl] l have "tokens_left ps' \<le> tokens_left ps1" by simp
    ultimately show "tokens_left ps' \<le> tokens_left ps" by simp
  qed
next
  case (2 A node ps)
  show ?case
  proof (intro allI impI)
    fix n ps' assume r: "parseExpression_loop A node ps = Inr (n, ps')"
    show "tokens_left ps' \<le> tokens_left ps"
    proof (cases "type (curtToken ps) = PLUS \<or> type (curtToken ps) = MINUS")
      case False
      with r 2(1) show ?thesis by (simp add: parseExpression_loop.psimps)
    next
      case True
      with r 2(1) obtain ps1 rhs ps2 where c: "consume (type (curtToken ps)) ps = Inr ps1"
        and t: "parseTerm A ps1 = Inr (rhs, ps2)"
        and l: "parseExpression_loop A (BinaryOpNode (type (curtToken ps)) node rhs) ps2 = Inr (n, ps')"
        by (auto simp: parseExpression_loop.psimps Let_def split: sum.splits)
      from consume_less[OF c] True have "tokens_left ps1 < tokens_left ps" by auto
      moreover from 2(2)[OF True refl c] t have "tokens_left ps2 \<le> tokens_left ps1" by simp
      moreover from 2(3)[OF True refl c t refl] l have "tokens_left ps' \<le> tokens_left ps2" by simp
      ultimately show ?thesis by simp
    qed
  qed
next
  case (3 A ps)
  show ?case
  proof (intro allI impI)
    fix n ps' assume r: "parseTerm A ps = Inr (n, ps')"
    from r 3(1) obtain nd ps1 where t: "parseFactor A ps = Inr (nd, ps1)"
      and l: "parseTerm_loop A nd ps1 = Inr (n, ps')"
      by (auto simp: parseTerm.psimps split: sum.splits)
    from 3(2) t have "tokens_left ps1 \<le> tokens_left ps" by simp
    moreover from 3(3)[OF t refl] l have "tokens_left ps' \<le> tokens_left ps1" by simp
    ultimately show "tokens_left ps' \<le> tokens_left ps" by simp
  qed
next
  case (4 A node ps)
  show ?case
  proof (intro allI impI)
    fix n ps' assume r: "parseTerm_loop A node ps = Inr (n, ps')"
    show "tokens_left ps' \<le> tokens_left ps"
    proof (cases "type (curtToken ps) = MULTIPLY \<or> type (curtToken ps) = DIVIDE")
      case False
      with r 4(1) show ?thesis by (simp add: parseTerm_loop.psimps)
    next
      case True
      with r 4(1) obtain ps1 rhs ps2 where c: "consume (type (curtToken ps)) ps = Inr ps1"
        and t: "parseFactor A ps1 = Inr (rhs, ps2)"
        and l: "parseTerm_loop A (BinaryOpNode (type (curtToken ps)) node rhs) ps2 = Inr (n, ps')"
        by (auto simp: parseTerm_loop.psimps Let_def split: sum.splits)
      from consume_less[OF c] True have "tokens_left ps1 < tokens_left ps" by auto
      moreover from 4(2)[OF True refl c] t have "tokens_left ps2 \<le> tokens_left ps1" by simp
      moreover from 4(3)[OF True refl c t refl] l have "tokens_left ps' \<le> tokens_left ps2" by simp
      ultimately show ?thesis by simp
    qed
  qed
next
  case (5 A ps)
  show ?case
  proof (intro allI impI)
    fix n ps' assume r: "parseFactor A ps = Inr (n, ps')"
    note r' = r[unfolded parseFactor.psimps[OF 5(1)]]
    consider (minus) "type (curtToken ps) = MINUS"
      | (num) "type (curtToken ps) = NUMBER"
      | (ident) "type (curtToken ps) = IDENTIFIER"
      | (paren) "type (curtToken ps) = LPAREN"
      | (other) "type (curtToken ps) \<notin> {MINUS, NUMBER, IDENTIFIER, LPAREN}"
      by auto
    then show "tokens_left ps' \<le> tokens_left ps"
    proof cases
      case minus
      with r' obtain ps1 operand where c: "consume MINUS ps = Inr ps1"
        and f: "parseFactor A ps1 = Inr (operand, ps')"
        by (auto split: sum.splits)
      from consume_less[OF c] have "tokens_left ps1 < tokens_left ps" by simp
      moreover from 5(2)[OF minus c] f have "tokens_left ps' \<le> tokens_left ps1" by simp
      ultimately show ?thesis by simp
    next
      case num
      with r' have c: "consume NUMBER ps = Inr ps'"
        by (auto split: sum.splits)
      from consume_less[OF c] show ?thesis by simp
    next
      case ident
      then have g: "type (curtToken ps) \<noteq> MINUS" "type (curtToken ps) \<noteq> NUMBER" by simp_all
      from ident r' obtain ps1 where c: "consume IDENTIFIER ps = Inr ps1"
        by (auto simp: Let_def split: sum.splits)
      from consume_less[OF c] have lt: "tokens_left ps1 < tokens_left ps" by simp
      consider (call) "type (curtToken ps1) = LPAREN"
        | (asg) "type (curtToken ps1) \<noteq> LPAREN" "type (curtToken ps1) = EQUAL"
        | (var) "type (curtToken ps1) \<noteq> LPAREN" "type (curtToken ps1) \<noteq> EQUAL"
        by auto
      then show ?thesis
      proof cases
        case call
        with ident r' c have "parseFunctionCall A (val (curtToken ps)) ps1 = Inr (n, ps')"
          by (simp add: Let_def)
        with 5(3)[OF g ident refl c call] lt show ?thesis by fastforce
      next
        case asg
        with ident r' c obtain ps2 v where c2: "consume EQUAL ps1 = Inr ps2"
          and e: "parseExpression A ps2 = Inr (v, ps')"
          by (auto simp: Let_def split: sum.splits)
        from consume_less[OF c2] have "tokens_left ps2 < tokens_left ps1" by simp
        moreover from 5(4)[OF g ident refl c asg c2] e have "tokens_left ps' \<le> tokens_left ps2"
          by simp
        ultimately show ?thesis using lt by simp
      next
        case var
        with ident r' c have "ps' = ps1" by (simp add: Let_def)
        with lt show ?thesis by simp
      qed
    next
      case paren
      then have g: "type (curtToken ps) \<noteq> MINUS" "type (curtToken ps) \<noteq> NUMBER"
        "type (curtToken ps) \<noteq> IDENTIFIER" by simp_all
      from paren r' obtain ps1 ps2 where c: "consume LPAREN ps = Inr ps1"
        and e: "parseExpression A ps1 = Inr (n, ps2)"
        and c2: "consume RPAREN ps2 = Inr ps'"
        by (auto split: sum.splits)
      from consume_less[OF c] have "tokens_left ps1 < tokens_left ps" by simp
      moreover from 5(5)[OF g paren c] e have "tokens_left ps2 \<le> tokens_left ps1" by simp
      moreover from consume_less[OF c2] have "tokens_left ps' < tokens_left ps2" by simp
      ultimately show ?thesis by simp
    next
      case other
      with r' show ?thesis by (auto split: if_splits)
    qed
  qed
next
  case (6 A funcName ps)
  show ?case
  proof (intro allI impI)
    fix n ps' assume r: "parseFunctionCall A funcName ps = Inr (n, ps')"
    note r' = r[unfolded parseFunctionCall.psimps[OF 6(1)]]
    from r' obtain ps1 args ps2 where c: "consume LPAREN ps = Inr ps1"
      and a: "(if type (curtToken ps1) \<noteq> RPAREN then parseFunctionCall_loop A [] ps1
               else Inr ([], ps1)) = Inr (args, ps2)"
      and c2: "consume RPAREN ps2 = Inr ps'"
      by (auto split: sum.splits)
    from consume_less[OF c] have "tokens_left ps1 < tokens_left ps" by simp
    moreover have "tokens_left ps2 \<le> tokens_left ps1"
    proof (cases "type (curtToken ps1) \<noteq> RPAREN")
      case True
      with a 6(2)[OF c True] show ?thesis by simp
    next
      case False
      with a show ?thesis by simp
    qed
    moreover from consume_less[OF c2] have "tokens_left ps' < tokens_left ps2" by simp
    ultimately show "tokens_left ps' \<le> tokens_left ps" by simp
  qed
next
  case (7 A args ps)
  show ?case
  proof (intro allI impI)
    fix n ps' assume r: "parseFunctionCall_loop A args ps = Inr (n, ps')"
    note r' = r[unfolded parseFunctionCall_loop.psimps[OF 7(1)]]
    from r' obtain arg ps1 where e: "parseExpression A ps = Inr (arg, ps1)"
      by (auto split: sum.splits)
    from 7(2) e have le: "tokens_left ps1 \<le> tokens_left ps" by simp
    show "tokens_left ps' \<le> tokens_left ps"
    proof (cases "type (curtToken ps1) = COMMA")
      case True
      with r' e obtain ps2 where c: "consume COMMA ps1 = Inr ps2"
        and l: "parseFunctionCall_loop A (args @ [arg]) ps2 = Inr (n, ps')"
        by (auto split: sum.splits)
      from consume_less[OF c] have "tokens_left ps2 < tokens_left ps1" by simp
      moreover from 7(3)[OF e refl True c] l have "tokens_left ps' \<le> tokens_left ps2" by simp
      ultimately show ?thesis using le by simp
    next
      case False
      with r' e have "ps' = ps1" by simp
      with le show ?thesis by simp
    qed
  qed
qed


termination parseExpression
proof (relation "measures
    [\<lambda>c. case c of
        Inl (Inl (A, ps)) \<Rightarrow> tokens_left ps
      | Inl (Inr (Inl (A, node, ps))) \<Rightarrow> tokens_left ps
      | Inl (Inr (Inr (A, ps))) \<Rightarrow> tokens_left ps
      | Inr (Inl (Inl (A, node, ps))) \<Rightarrow> tokens_left ps
      | Inr (Inl (Inr (A, ps))) \<Rightarrow> tokens_left ps
      | Inr (Inr (Inl (A, funcName, ps))) \<Rightarrow> tokens_left ps
      | Inr (Inr (Inr (A, args, ps))) \<Rightarrow> tokens_left ps,
     \<lambda>c. case c of
        Inl (Inl (A, ps)) \<Rightarrow> 5
      | Inl (Inr (Inl (A, node, ps))) \<Rightarrow> 4
      | Inl (Inr (Inr (A, ps))) \<Rightarrow> 3
      | Inr (Inl (Inl (A, node, ps))) \<Rightarrow> 2
      | Inr (Inl (Inr (A, ps))) \<Rightarrow> 1
      | Inr (Inr (Inl (A, funcName, ps))) \<Rightarrow> 0
      | Inr (Inr (Inr (A, args, ps))) \<Rightarrow> (6::nat)]", goal_cases)
  case 1
  show ?case by simp
next
  case 2 then show ?case by simp
next
  case 3 then show ?case using parse_dom_le(3) by fastforce
next
  case 4 then show ?case using consume_less by fastforce
next
  case (5 A node ps x b ba xa y)
  then show ?case using consume_less[of x ps b] parse_dom_le(3)[of A b] by fastforce
next
  case 6 then show ?case by simp
next
  case 7 then show ?case using parse_dom_le(5) by fastforce
next
  case 8 then show ?case using consume_less by fastforce
next
  case (9 A node ps x b ba xa y)
  then show ?case using consume_less[of x ps b] parse_dom_le(5)[of A b] by fastforce
next
  case 10 then show ?case using consume_less by fastforce
next
  case 11 then show ?case using consume_less by fastforce
next
  case (12 A ps x b ba)
  then show ?case using consume_less[of IDENTIFIER ps b] consume_less[of EQUAL b ba] by fastforce
next
  case 13 then show ?case using consume_less by fastforce
next
  case 14 then show ?case using consume_less by fastforce
next
  case 15 then show ?case by simp
next
  case (16 A args ps b x y ba)
  then show ?case using consume_less[of COMMA y ba] parse_dom_le(1)[of A ps] by fastforce
qed

declare parseExpression.simps [simp del] parseExpression_loop.simps [simp del]
  parseTerm.simps [simp del] parseTerm_loop.simps [simp del] parseFactor.simps [simp del]
  parseFunctionCall.simps [simp del] parseFunctionCall_loop.simps [simp del]

section \<open>Evaluation\<close>

text \<open>
  \<^verbatim>\<open>evaluate\<close> takes the environment by reference and may throw after it has changed it:
  a computation maps the environment to the value or the exception, and the environment
  as it stands then.
\<close>

type_synonym ('s, 'a) comp = "'s \<Rightarrow> (error + 'a) \<times> 's"

definition ret :: "'a \<Rightarrow> ('s, 'a) comp" where
  "ret a s = (Inr a, s)"

definition throw :: "error \<Rightarrow> ('s, 'a) comp" where
  "throw e s = (Inl e, s)"

definition bind :: "('s, 'a) comp \<Rightarrow> ('a \<Rightarrow> ('s, 'b) comp) \<Rightarrow> ('s, 'b) comp" where
  "bind m f s = (case m s of (Inl e, s') \<Rightarrow> (Inl e, s') | (Inr a, s') \<Rightarrow> f a s')"

text \<open>
  C++ does not fix the order in which the two operands of an operator, or the two
  arguments of a call, are evaluated; each is evaluated whole before or after the other.
  The order a compiler picks for the two operand expressions of one expression of the
  source, in the order they are written there, is a parameter.
\<close>

datatype operand_order = FirstWrittenFirst | SecondWrittenFirst

fun operands ::
  "operand_order \<Rightarrow> ('s, 'a) comp \<Rightarrow> ('s, 'b) comp \<Rightarrow> ('s, 'a \<times> 'b) comp" where
  "operands FirstWrittenFirst m1 m2 = bind m1 (\<lambda>x. bind m2 (\<lambda>y. ret (x, y)))"
| "operands SecondWrittenFirst m1 m2 = bind m2 (\<lambda>y. bind m1 (\<lambda>x. ret (x, y)))"

fun evaluate ::
  "'d fp_ops \<Rightarrow> (string \<Rightarrow> operand_order) \<Rightarrow> 'd ASTNode \<Rightarrow> ('d umapsd, 'd) comp" where
  "evaluate A ord (NumberNode v) = ret v"
| "evaluate A ord (VariableNode name) =
    (\<lambda>variables.
       case umapsd_find variables name of
         None \<Rightarrow> throw (runtime_error (''Undefined variable: '' @ name)) variables
       | Some v \<Rightarrow> ret v variables)"
| "evaluate A ord (AssignmentNode name v) =
    bind (evaluate A ord v) (\<lambda>val variables. ret val (umapsd_assign name val variables))"
| "evaluate A ord (FunctionCallNode functionName [a0]) =
    (if functionName = ''sin'' then bind (evaluate A ord a0) (\<lambda>x. ret (std_sin A x))
     else if functionName = ''cos'' then bind (evaluate A ord a0) (\<lambda>x. ret (std_cos A x))
     else if functionName = ''tan'' then bind (evaluate A ord a0) (\<lambda>x. ret (std_tan A x))
     else if functionName = ''asin'' then bind (evaluate A ord a0) (\<lambda>x. ret (std_asin A x))
     else if functionName = ''acos'' then bind (evaluate A ord a0) (\<lambda>x. ret (std_acos A x))
     else if functionName = ''atan'' then bind (evaluate A ord a0) (\<lambda>x. ret (std_atan A x))
     else if functionName = ''sinh'' then bind (evaluate A ord a0) (\<lambda>x. ret (std_sinh A x))
     else if functionName = ''cosh'' then bind (evaluate A ord a0) (\<lambda>x. ret (std_cosh A x))
     else if functionName = ''tanh'' then bind (evaluate A ord a0) (\<lambda>x. ret (std_tanh A x))
     else if functionName = ''asinh'' then bind (evaluate A ord a0) (\<lambda>x. ret (std_asinh A x))
     else if functionName = ''acosh'' then bind (evaluate A ord a0) (\<lambda>x. ret (std_acosh A x))
     else if functionName = ''atanh'' then bind (evaluate A ord a0) (\<lambda>x. ret (std_atanh A x))
     else if functionName = ''sqrt'' then bind (evaluate A ord a0) (\<lambda>x. ret (std_sqrt A x))
     else if functionName = ''cbrt'' then bind (evaluate A ord a0) (\<lambda>x. ret (std_cbrt A x))
     else if functionName = ''exp'' then bind (evaluate A ord a0) (\<lambda>x. ret (std_exp A x))
     else if functionName = ''ln'' then bind (evaluate A ord a0) (\<lambda>x. ret (std_log A x))
     else if functionName = ''log10'' then bind (evaluate A ord a0) (\<lambda>x. ret (std_log10 A x))
     else if functionName = ''log2'' then bind (evaluate A ord a0) (\<lambda>x. ret (std_log2 A x))
     else if functionName = ''abs'' then bind (evaluate A ord a0) (\<lambda>x. ret (std_abs A x))
     else throw (runtime_error (''Unknown function: '' @ functionName)))"
| "evaluate A ord (FunctionCallNode functionName [a0, a1]) =
    (if functionName = ''log'' then
       bind (operands (ord ''log'') (evaluate A ord a1) (evaluate A ord a0))
         (\<lambda>(x, b). ret (fp_div A (std_log A x) (std_log A b)))
     else if functionName = ''pow'' then
       bind (operands (ord ''pow'') (evaluate A ord a0) (evaluate A ord a1))
         (\<lambda>(b, e). ret (std_pow A b e))
     else if functionName = ''mod'' then
       bind (operands (ord ''mod'') (evaluate A ord a0) (evaluate A ord a1))
         (\<lambda>(a, b). ret (std_fmod A a b))
     else throw (runtime_error (''Unknown function: '' @ functionName)))"
| "evaluate A ord (FunctionCallNode functionName arguments) =
    throw (runtime_error (''Unknown function: '' @ functionName))"
| "evaluate A ord (UnaryOpNode op operand) =
    bind (evaluate A ord operand)
      (\<lambda>val. if op = MINUS then ret (fp_neg A val)
             else throw (runtime_error ''Invalid unary operator''))"
| "evaluate A ord (BinaryOpNode op left right) =
    bind (evaluate A ord left) (\<lambda>lval.
    bind (evaluate A ord right) (\<lambda>rval.
      if op = PLUS then ret (fp_add A lval rval)
      else if op = MINUS then ret (fp_sub A lval rval)
      else if op = MULTIPLY then ret (fp_mul A lval rval)
      else if op = DIVIDE then ret (fp_div A lval rval)
      else throw (runtime_error ''Invalid operator'')))"

text \<open>
  The constructor of \<^verbatim>\<open>Parser\<close> reads the first token; \<^verbatim>\<open>calculate\<close> parses one
  expression from the start of the line and evaluates it. Whatever follows the expression
  on the line is not looked at.
\<close>

definition Parser_new :: "string \<Rightarrow> error + Parser" where
  "Parser_new expr =
    (case getNextToken \<lparr>input = expr, pos = 0\<rparr> of
       Inl e \<Rightarrow> Inl e
     | Inr (t, lx) \<Rightarrow> Inr \<lparr>lexer = lx, curtToken = t\<rparr>)"

definition calculate ::
  "'d fp_ops \<Rightarrow> (string \<Rightarrow> operand_order) \<Rightarrow> string \<Rightarrow> ('d umapsd, 'd) comp" where
  "calculate A ord line variables =
    (case Parser_new line of
       Inl e \<Rightarrow> (Inl e, variables)
     | Inr parser \<Rightarrow>
         (case parseExpression A parser of
            Inl e \<Rightarrow> (Inl e, variables)
          | Inr (expr, parser') \<Rightarrow> evaluate A ord expr variables))"

section \<open>Command tokenizer\<close>

text \<open>
  The local variables of \<^verbatim>\<open>commandsDivide\<close>. The current term is the field \<open>cur\<close>.
\<close>

record divide_state =
  terms :: "string list"
  cur :: string
  in_quotes :: bool
  quote_char :: char
  escape :: bool

definition backslash :: char where "backslash = CHR 0x5C"
definition dquote :: char where "dquote = CHR 0x22"
definition squote :: char where "squote = CHR 0x27"
definition nul :: char where "nul = CHR 0x00"

text \<open>One pass of the body of the for loop, on the character \<open>c\<close>.\<close>

definition divide_step :: "char \<Rightarrow> divide_state \<Rightarrow> divide_state" where
  "divide_step c st =
    (if escape st then st\<lparr>cur := cur st @ [c], escape := False\<rparr>
     else if c = backslash then st\<lparr>escape := True\<rparr>
     else if (c = dquote \<or> c = squote) \<and> \<not> escape st then
       (if in_quotes st then
          (if c = quote_char st then st\<lparr>in_quotes := False, quote_char := nul\<rparr>
           else st\<lparr>cur := cur st @ [c]\<rparr>)
        else st\<lparr>in_quotes := True, quote_char := c\<rparr>)
     else if c = CHR '' '' \<and> \<not> in_quotes st then
       (if cur st \<noteq> [] then st\<lparr>terms := terms st @ [cur st], cur := []\<rparr> else st)
     else st\<lparr>cur := cur st @ [c]\<rparr>)"

definition divide_init :: divide_state where
  "divide_init = \<lparr>terms = [], cur = [], in_quotes = False, quote_char = nul, escape = False\<rparr>"

definition commandsDivide :: "string \<Rightarrow> error + string list" where
  "commandsDivide inp =
    (if inp = [] \<or> hd inp \<noteq> CHR '':'' then Inr []
     else
       let st = fold divide_step (tl inp) divide_init in
       if in_quotes st then Inl (runtime_error ''Unclosed quote in input string.'')
       else if cur st \<noteq> [] then Inr (terms st @ [cur st])
       else Inr (terms st))"

section \<open>The driver\<close>

definition MAX_DEPTH :: int where
  "MAX_DEPTH = 128"

text \<open>
  The fields of \<^verbatim>\<open>Options\<close>, each with the prefix \<open>opt_\<close>. The driver reads \<open>opt_once\<close> only.
\<close>

record Options =
  opt_args :: "string list"
  opt_help :: bool
  opt_version :: bool
  opt_once :: bool
  opt_file :: bool
  opt_exit :: bool
  opt_files :: "string list"

text \<open>
  What the driver acts on besides its arguments: the environment, and the text written to
  \<^verbatim>\<open>std::cout\<close> and \<^verbatim>\<open>std::cerr\<close>, one entry for each output statement executed;
  \<open>Cout_Ans r\<close> is the line that holds \<^verbatim>\<open>Ans: \<close> and the double \<open>r\<close> as the stream formats it. A
  stream is the list of the lines \<^verbatim>\<open>std::getline\<close> will return; the file system maps a path to
  the lines of its file when the file opens.
\<close>

datatype 'd out_event = Cout string | Cout_Ans 'd | Cerr string

record 'd world =
  variables :: "'d umapsd"
  printed :: "'d out_event list"

definition print :: "'d out_event \<Rightarrow> 'd world \<Rightarrow> 'd world" where
  "print ev w = w\<lparr>printed := printed w @ [ev]\<rparr>"

definition endl :: string where "endl = [CHR 0x0A]"
definition red :: string where "red = CHR 0x1B # ''[31m''"
definition reset :: string where "reset = CHR 0x1B # ''[0m''"

definition usage :: string where
  "usage =
     ''Usage: scalc [options]'' @ endl @
     ''Options:'' @ endl @
     ''  -h --help         Display this information.'' @ endl @
     ''  -v --version      Display calculator version information.'' @ endl @
     ''  -o --once         Run the calculation only once and then exit.'' @ endl @
     ''  -f <path>'' @ endl @
     ''    --file <path>   Execute commands from specified file.'' @ endl @
     ''Interactive commands:'' @ endl @
     ''  :e :exit          Exit interactive mode.'' @ endl @
     ''  :h :help          Display this information.'' @ endl @
     ''  :f <paths>'' @ endl @
     ''    :file <paths>   Execute commands from specified files.'' @ endl @
     ''  <expression>      Calculate expression. The result is stored variable '' @
       [squote] @ ''Ans'' @ [squote] @ ''.'' @ endl"

text \<open>How one pass of the do-while loop ends: at a \<^verbatim>\<open>break\<close>, or at the loop condition.\<close>

datatype 'w pass = Break 'w | Continue 'w

text \<open>
  \<^verbatim>\<open>process\<close>. \<open>process_loop\<close> is the do-while loop, \<open>process_line\<close> its body from the test
  for an empty line on, \<open>process_files\<close> the for loop over the paths of a file command.
  \<open>Inl\<close> is an exception that leaves \<^verbatim>\<open>process\<close>: nothing above it catches one, so the
  program ends there.
\<close>

function process ::
    "'d fp_ops \<Rightarrow> (string \<Rightarrow> operand_order) \<Rightarrow> (string \<Rightarrow> string list option) \<Rightarrow>
     string list \<Rightarrow> bool \<Rightarrow> Options \<Rightarrow> int \<Rightarrow> 'd world \<Rightarrow> error + 'd world"
  and process_loop ::
    "'d fp_ops \<Rightarrow> (string \<Rightarrow> operand_order) \<Rightarrow> (string \<Rightarrow> string list option) \<Rightarrow>
     string list \<Rightarrow> bool \<Rightarrow> Options \<Rightarrow> int \<Rightarrow> 'd world \<Rightarrow> error + 'd world"
  and process_line ::
    "'d fp_ops \<Rightarrow> (string \<Rightarrow> operand_order) \<Rightarrow> (string \<Rightarrow> string list option) \<Rightarrow>
     string \<Rightarrow> bool \<Rightarrow> Options \<Rightarrow> int \<Rightarrow> 'd world \<Rightarrow> error + 'd world pass"
  and process_files ::
    "'d fp_ops \<Rightarrow> (string \<Rightarrow> operand_order) \<Rightarrow> (string \<Rightarrow> string list option) \<Rightarrow>
     string list \<Rightarrow> Options \<Rightarrow> int \<Rightarrow> 'd world \<Rightarrow> error + 'd world"
where
  "process A ord fs stream write opts depth w =
    (if MAX_DEPTH < depth then Inr w
     else process_loop A ord fs stream write opts depth w)"
| "process_loop A ord fs stream write opts depth w =
    (let w1 = (if write then print (Cout ''> '') w else w) in
     case stream of
       [] \<Rightarrow> Inr w1
     | line # rest \<Rightarrow>
         (case process_line A ord fs line write opts depth w1 of
            Inl e \<Rightarrow> Inl e
          | Inr (Break w2) \<Rightarrow> Inr w2
          | Inr (Continue w2) \<Rightarrow>
              if \<not> opt_once opts \<or> \<not> write
              then process_loop A ord fs rest write opts depth w2
              else Inr w2))"
| "process_line A ord fs line write opts depth w =
    (if line = [] then Inr (Continue w)
     else if hd line = CHR '':'' then
       (case commandsDivide line of
          Inl e \<Rightarrow> Inl e
        | Inr ts \<Rightarrow>
            if ts = [] then Inr (Continue w)
            else if hd ts = ''e'' \<or> hd ts = ''exit'' then Inr (Break w)
            else
              let w1 = (if (hd ts = ''h'' \<or> hd ts = ''help'') \<and> write
                        then print (Cout usage) w else w) in
              if hd ts = ''f'' \<or> hd ts = ''file'' then
                (case process_files A ord fs (tl ts) opts depth w1 of
                   Inl e \<Rightarrow> Inl e
                 | Inr w2 \<Rightarrow> Inr (Continue w2))
              else Inr (Continue w1))
     else
       (case calculate A ord (''Ans = '' @ line) (variables w) of
          (Inr result, vs) \<Rightarrow>
            Inr (Continue
              (let w1 = w\<lparr>variables := vs\<rparr> in
               if write then print (Cout_Ans result) w1
               else w1))
        | (Inl e, vs) \<Rightarrow>
            Inr (Continue
              (print (Cerr (red @ ''Error: '' @ what e @ reset @ endl))
                 (w\<lparr>variables := vs\<rparr>)))))"
| "process_files A ord fs paths opts depth w =
    (case paths of
       [] \<Rightarrow> Inr w
     | path # others \<Rightarrow>
         (case fs path of
            Some file_lines \<Rightarrow>
              (case process A ord fs file_lines False opts (depth + 1) w of
                 Inl e \<Rightarrow> Inl e
               | Inr w1 \<Rightarrow> process_files A ord fs others opts depth w1)
          | None \<Rightarrow>
              process_files A ord fs others opts depth
                (print (Cerr (red @ ''Error: Cannot open file '' @ path @ reset @ endl)) w)))"
  by pat_completeness auto

termination process
  by (relation "measures
    [\<lambda>c. case c of
        Inl (Inl (A, ord, fs, stream, write, opts, depth, w)) \<Rightarrow> 3 * nat (MAX_DEPTH + 1 - depth)
      | Inl (Inr (A, ord, fs, stream, write, opts, depth, w)) \<Rightarrow> 3 * nat (MAX_DEPTH - depth) + 2
      | Inr (Inl (A, ord, fs, line, write, opts, depth, w)) \<Rightarrow> 3 * nat (MAX_DEPTH - depth) + 2
      | Inr (Inr (A, ord, fs, paths, opts, depth, w)) \<Rightarrow> 3 * nat (MAX_DEPTH - depth) + 1,
     \<lambda>c. case c of
        Inl (Inl (A, ord, fs, stream, write, opts, depth, w)) \<Rightarrow> 0
      | Inl (Inr (A, ord, fs, stream, write, opts, depth, w)) \<Rightarrow> 1
      | Inr (Inl (A, ord, fs, line, write, opts, depth, w)) \<Rightarrow> 0
      | Inr (Inr (A, ord, fs, paths, opts, depth, w)) \<Rightarrow> 0,
     \<lambda>c. case c of
        Inl (Inl (A, ord, fs, stream, write, opts, depth, w)) \<Rightarrow> 0
      | Inl (Inr (A, ord, fs, stream, write, opts, depth, w)) \<Rightarrow> length stream
      | Inr (Inl (A, ord, fs, line, write, opts, depth, w)) \<Rightarrow> 0
      | Inr (Inr (A, ord, fs, paths, opts, depth, w)) \<Rightarrow> length paths]")
    (auto simp: MAX_DEPTH_def)

declare process.simps [simp del] process_loop.simps [simp del] process_line.simps [simp del]
  process_files.simps [simp del]

section \<open>Exact arithmetic, for running the model\<close>

text \<open>
  One choice of the operations, used where a theorem runs the model on a concrete line. A
  value is a rational number, computed without rounding, or the application of an
  operation that is not computed, kept as it stands: the functions of \<^verbatim>\<open><cmath>\<close>, a
  division by zero, and any operation on such a value. On the small integers and the sums,
  differences and products of the examples it computes what binary64 computes, which needs
  no rounding there.
\<close>

datatype xval = Exact rat | Apply string "xval list"

fun exact_add :: "xval \<Rightarrow> xval \<Rightarrow> xval" where
  "exact_add (Exact a) (Exact b) = Exact (a + b)"
| "exact_add x y = Apply ''+'' [x, y]"

fun exact_sub :: "xval \<Rightarrow> xval \<Rightarrow> xval" where
  "exact_sub (Exact a) (Exact b) = Exact (a - b)"
| "exact_sub x y = Apply ''-'' [x, y]"

fun exact_mul :: "xval \<Rightarrow> xval \<Rightarrow> xval" where
  "exact_mul (Exact a) (Exact b) = Exact (a * b)"
| "exact_mul x y = Apply ''*'' [x, y]"

fun exact_div :: "xval \<Rightarrow> xval \<Rightarrow> xval" where
  "exact_div (Exact a) (Exact b) = (if b = 0 then Apply ''/'' [Exact a, Exact b] else Exact (a / b))"
| "exact_div x y = Apply ''/'' [x, y]"

fun exact_neg :: "xval \<Rightarrow> xval" where
  "exact_neg (Exact a) = Exact (- a)"
| "exact_neg x = Apply ''-'' [x]"

definition digits_value :: "string \<Rightarrow> nat" where
  "digits_value s = foldl (\<lambda>n c. 10 * n + (of_char c - 48)) 0 s"

definition decimal_value :: "string \<Rightarrow> rat" where
  "decimal_value s =
    (let ip = takeWhile isdigit s; fp = takeWhile isdigit (drop (Suc (length ip)) s)
     in of_nat (digits_value ip) + of_nat (digits_value fp) / 10 ^ length fp)"

definition exact_ops :: "xval fp_ops" where
  "exact_ops =
    \<lparr>fp_add = exact_add, fp_sub = exact_sub, fp_mul = exact_mul, fp_div = exact_div,
     fp_neg = exact_neg,
     std_sin = (\<lambda>x. Apply ''sin'' [x]), std_cos = (\<lambda>x. Apply ''cos'' [x]),
     std_tan = (\<lambda>x. Apply ''tan'' [x]), std_asin = (\<lambda>x. Apply ''asin'' [x]),
     std_acos = (\<lambda>x. Apply ''acos'' [x]), std_atan = (\<lambda>x. Apply ''atan'' [x]),
     std_sinh = (\<lambda>x. Apply ''sinh'' [x]), std_cosh = (\<lambda>x. Apply ''cosh'' [x]),
     std_tanh = (\<lambda>x. Apply ''tanh'' [x]), std_asinh = (\<lambda>x. Apply ''asinh'' [x]),
     std_acosh = (\<lambda>x. Apply ''acosh'' [x]), std_atanh = (\<lambda>x. Apply ''atanh'' [x]),
     std_sqrt = (\<lambda>x. Apply ''sqrt'' [x]), std_cbrt = (\<lambda>x. Apply ''cbrt'' [x]),
     std_exp = (\<lambda>x. Apply ''exp'' [x]), std_log = (\<lambda>x. Apply ''log'' [x]),
     std_log10 = (\<lambda>x. Apply ''log10'' [x]), std_log2 = (\<lambda>x. Apply ''log2'' [x]),
     std_abs = (\<lambda>x. Apply ''abs'' [x]),
     std_pow = (\<lambda>x y. Apply ''pow'' [x, y]),
     std_fmod = (\<lambda>x y. Apply ''fmod'' [x, y]),
     strtod_value = (\<lambda>s. Inr (Exact (decimal_value s)))\<rparr>"

text \<open>The order of a compiler that evaluates operands and arguments as they are written.\<close>

definition as_written :: "string \<Rightarrow> operand_order" where
  "as_written site = FirstWrittenFirst"

definition reversed :: "string \<Rightarrow> operand_order" where
  "reversed site = SecondWrittenFirst"

section \<open>The table of built-in functions\<close>

text \<open>
  The names \<^verbatim>\<open>FunctionCallNode::evaluate\<close> compares \<open>functionName\<close> with, in the order of its
  if statements: under \<^verbatim>\<open>arguments.size() == 1\<close>, and under \<^verbatim>\<open>arguments.size() == 2\<close>.
\<close>

definition unary_functions :: "string list" where
  "unary_functions =
    [''sin'', ''cos'', ''tan'', ''asin'', ''acos'', ''atan'',
     ''sinh'', ''cosh'', ''tanh'', ''asinh'', ''acosh'', ''atanh'',
     ''sqrt'', ''cbrt'', ''exp'', ''ln'', ''log10'', ''log2'', ''abs'']"

definition binary_functions :: "string list" where
  "binary_functions = [''log'', ''pow'', ''mod'']"

definition built_in :: "string \<Rightarrow> nat \<Rightarrow> bool" where
  "built_in name arity =
    (arity = 1 \<and> name \<in> set unary_functions \<or> arity = 2 \<and> name \<in> set binary_functions)"

section \<open>The command tokenizer of the specification\<close>

text \<open>
  The state machine as the specification words it: the terms pushed so far and the current
  term, the three flags \<open>inQuotes\<close>, \<open>quoteChar\<close> and \<open>escaping\<close>, and the five rules in
  their order of priority; at the end of the input an open quote fails, otherwise the
  current term is flushed when it is not empty.
\<close>

record spec_state =
  s_terms :: "string list"
  s_cur :: string
  inQuotes :: bool
  quoteChar :: char
  escaping :: bool

definition spec_step :: "char \<Rightarrow> spec_state \<Rightarrow> spec_state" where
  "spec_step c st =
    (if escaping st then st\<lparr>s_cur := s_cur st @ [c], escaping := False\<rparr>
     else if c = backslash then st\<lparr>escaping := True\<rparr>
     else if c = dquote \<or> c = squote then
       (if \<not> inQuotes st then st\<lparr>inQuotes := True, quoteChar := c\<rparr>
        else if c = quoteChar st then st\<lparr>inQuotes := False\<rparr>
        else st\<lparr>s_cur := s_cur st @ [c]\<rparr>)
     else if c = CHR '' '' \<and> \<not> inQuotes st then
       (if s_cur st \<noteq> [] then st\<lparr>s_terms := s_terms st @ [s_cur st], s_cur := []\<rparr> else st)
     else st\<lparr>s_cur := s_cur st @ [c]\<rparr>)"

definition spec_split :: "string \<Rightarrow> error + string list" where
  "spec_split s =
    (let st = fold spec_step s
         \<lparr>s_terms = [], s_cur = [], inQuotes = False, quoteChar = nul, escaping = False\<rparr>
     in if inQuotes st then Inl (runtime_error ''Unclosed quote in input string.'')
        else Inr (if s_cur st \<noteq> [] then s_terms st @ [s_cur st] else s_terms st))"

text \<open>A word with no space, quote or backslash in it, and not empty.\<close>

definition plain :: "string \<Rightarrow> bool" where
  "plain w = (w \<noteq> [] \<and> list_all (\<lambda>c. c \<notin> {CHR '' '', dquote, squote, backslash}) w)"


text \<open>
  The states of the source and of the specification agree; \<open>quote_char\<close>, which the source
  resets when a quote closes, is compared only while a quote is open.
\<close>

definition same_state :: "divide_state \<Rightarrow> spec_state \<Rightarrow> bool" where
  "same_state st sp =
    (terms st = s_terms sp \<and> cur st = s_cur sp \<and> in_quotes st = inQuotes sp \<and>
     escape st = escaping sp \<and> (in_quotes st \<longrightarrow> quote_char st = quoteChar sp))"

section \<open>Numerals\<close>

text \<open>
  A decimal numeral as \<^verbatim>\<open>strtod\<close> reads one: digits with at most one dot among them, and at
  least one digit.
\<close>

definition decimal_numeral :: "string \<Rightarrow> bool" where
  "decimal_numeral q =
    (let ip = takeWhile isdigit q; r = dropWhile isdigit q in
     if r = [] then ip \<noteq> []
     else hd r = CHR ''.'' \<and> list_all isdigit (tl r) \<and> (ip \<noteq> [] \<or> tl r \<noteq> []))"

text \<open>The characters a NUMBER token is made of.\<close>

definition number_char :: "char \<Rightarrow> bool" where
  "number_char c = (isdigit c \<or> c = CHR ''.'')"


section \<open>What the lexer has read\<close>

text \<open>The character \<open>^\<close>.\<close>

definition caret :: char where "caret = CHR 0x5E"



text \<open>
  Two parser states at the same place with the same current token, \<open>ps\<close> on the text
  \<open>pre\<close> and \<open>qs\<close> on the line made of \<open>pre\<close>, a \<open>^\<close> and \<open>rest\<close>; the token is not END.
\<close>

definition follows :: "string \<Rightarrow> string \<Rightarrow> Parser \<Rightarrow> Parser \<Rightarrow> bool" where
  "follows pre rest ps qs =
    (input (lexer ps) = pre \<and> input (lexer qs) = pre @ caret # rest \<and>
     pos (lexer qs) = pos (lexer ps) \<and> pos (lexer ps) \<le> length pre \<and>
     curtToken qs = curtToken ps \<and> type (curtToken ps) \<noteq> END)"





section \<open>Where an expression ends\<close>

text \<open>The current token is none of the four binary operators.\<close>

definition stops :: "Parser \<Rightarrow> bool" where
  "stops ps = (type (curtToken ps) \<notin> {PLUS, MINUS, MULTIPLY, DIVIDE})"


section \<open>The grammar of arithmetic expressions\<close>











section \<open>The order of assignments\<close>

text \<open>
  The targets of the assignments of a tree in the order in which a successful evaluation
  commits them: those inside the right-hand side of an assignment before the assignment
  itself, those of the left operand of a binary operator before those of its right
  operand, and for a call with two arguments those of the operand the compiler evaluates
  first before those of the other. In \<^verbatim>\<open>log\<close> the operand written first is the second
  argument, in \<^verbatim>\<open>pow\<close> and \<^verbatim>\<open>mod\<close> the first. A call with any other number of arguments
  never succeeds and evaluates none of them.
\<close>

fun walk :: "(string \<Rightarrow> operand_order) \<Rightarrow> 'd ASTNode \<Rightarrow> string list" where
  "walk ord (NumberNode v) = []"
| "walk ord (VariableNode name) = []"
| "walk ord (AssignmentNode name v) = walk ord v @ [name]"
| "walk ord (FunctionCallNode functionName [a0]) = walk ord a0"
| "walk ord (FunctionCallNode functionName [a0, a1]) =
    (if functionName = ''log'' then
       (case ord ''log'' of
          FirstWrittenFirst \<Rightarrow> walk ord a1 @ walk ord a0
        | SecondWrittenFirst \<Rightarrow> walk ord a0 @ walk ord a1)
     else
       (case ord functionName of
          FirstWrittenFirst \<Rightarrow> walk ord a0 @ walk ord a1
        | SecondWrittenFirst \<Rightarrow> walk ord a1 @ walk ord a0))"
| "walk ord (FunctionCallNode functionName arguments) = []"
| "walk ord (UnaryOpNode op operand) = walk ord operand"
| "walk ord (BinaryOpNode op left right) = walk ord left @ walk ord right"

text \<open>
  A computation that adds bindings on top of the environment and nothing else, for the
  names given and in their order when it succeeds, for a prefix of them when it fails.
\<close>

definition commits :: "('d umapsd, 'a) comp \<Rightarrow> string list \<Rightarrow> bool" where
  "commits m names =
    (\<forall>vs r vs'. m vs = (r, vs') \<longrightarrow>
       (\<exists>cs. vs' = cs @ vs \<and> prefix (rev (map fst cs)) names \<and>
             (\<forall>a. r = Inr a \<longrightarrow> rev (map fst cs) = names)))"


text \<open>A computation that only adds bindings on top of the environment it is given.\<close>

definition grows :: "('d umapsd, 'a) comp \<Rightarrow> bool" where
  "grows m = (\<forall>vs. \<exists>cs. snd (m vs) = cs @ vs)"

section \<open>Running the model\<close>

text \<open>
  The options of a start without arguments, the state \<^verbatim>\<open>main\<close> starts the driver in
  (\<open>Ans\<close> is zero, nothing printed), a file system on which no file opens, and one with
  two files, each holding the single line that sources the other.
\<close>

definition default_options :: Options where
  "default_options =
    \<lparr>opt_args = [], opt_help = False, opt_version = False, opt_once = False,
     opt_file = False, opt_exit = False, opt_files = [''init.scalc'']\<rparr>"

definition initial_world :: "xval world" where
  "initial_world = \<lparr>variables = [(''Ans'', Exact 0)], printed = []\<rparr>"

definition no_files :: "string \<Rightarrow> string list option" where
  "no_files path = None"

definition two_files :: "string \<Rightarrow> string list option" where
  "two_files path =
    (if path = ''a.scalc'' then Some ['':file b.scalc'']
     else if path = ''b.scalc'' then Some ['':file a.scalc'']
     else None)"

lemmas divide_simps = commandsDivide_def divide_step_def divide_init_def
  backslash_def dquote_def squote_def nul_def

lemmas process_simps = process.simps process_loop.simps process_line.simps process_files.simps

lemmas parse_simps = parseExpression.simps parseExpression_loop.simps parseTerm.simps
  parseTerm_loop.simps parseFactor.simps parseFunctionCall.simps parseFunctionCall_loop.simps

lemmas lex_simps = Parser_new_def consume_def getNextToken_def Let_def
  isdigit_def isalpha_def isalnum_def isspace_def stod_def decimal_prefix_def

lemmas comp_simps = bind_def ret_def throw_def umapsd_find_def umapsd_assign_def

lemmas exact_simps = exact_ops_def decimal_value_def digits_value_def

section \<open>Function dispatch\<close>

lemma evaluate_not_built_in:
  assumes "\<not> built_in name (length args)"
  shows "evaluate A ord (FunctionCallNode name args) vs =
           (Inl (runtime_error (''Unknown function: '' @ name)), vs)"
proof -
  consider (zero) "args = []" | (one) a where "args = [a]" | (two) a b where "args = [a, b]"
    | (more) a b c rest where "args = a # b # c # rest"
    by (cases args rule: list.exhaust, simp, rename_tac a as, case_tac as, simp, rename_tac b bs, case_tac bs, auto)
  then show ?thesis
  proof cases
    case zero then show ?thesis by (simp add: throw_def)
  next
    case one
    with assms show ?thesis
      by (simp add: built_in_def unary_functions_def throw_def)
  next
    case two
    with assms show ?thesis
      by (simp add: built_in_def binary_functions_def throw_def)
  next
    case more then show ?thesis by (simp add: throw_def)
  qed
qed

lemma evaluate_unary_built_in:
  assumes "name \<in> set unary_functions"
  shows "\<exists>r. evaluate A ord (FunctionCallNode name [NumberNode v]) vs = (Inr r, vs)"
  using assms by (auto simp: unary_functions_def comp_simps)

lemma evaluate_binary_built_in:
  assumes "name \<in> set binary_functions"
  shows "\<exists>r. evaluate A ord (FunctionCallNode name [NumberNode v, NumberNode u]) vs = (Inr r, vs)"
  using assms by (cases "ord name") (auto simp: binary_functions_def comp_simps)

text \<open>
  C6, as the code has it. A call whose name and number of arguments are not in the table
  throws \<^verbatim>\<open>runtime_error\<close> with the message \<^verbatim>\<open>Unknown function: \<close> followed by the name, and
  evaluates no argument. The message names the function and not the number of arguments.
  The table holds nineteen functions of one argument, \<open>abs\<close> the last, and \<open>log\<close>, \<open>pow\<close>,
  \<open>mod\<close> of two; a call that is in the table, on numbers, returns a value.
\<close>

theorem unknown_function_error:
  "(\<not> built_in name (length args) \<longrightarrow>
      evaluate A ord (FunctionCallNode name args) vs =
        (Inl (runtime_error (''Unknown function: '' @ name)), vs)) \<and>
   (name \<in> set unary_functions \<longrightarrow>
      (\<exists>r. evaluate A ord (FunctionCallNode name [NumberNode v]) vs = (Inr r, vs))) \<and>
   (name \<in> set binary_functions \<longrightarrow>
      (\<exists>r. evaluate A ord (FunctionCallNode name [NumberNode v, NumberNode u]) vs = (Inr r, vs))) \<and>
   length unary_functions = 19 \<and> distinct unary_functions \<and>
   length binary_functions = 3 \<and> distinct binary_functions"
proof -
  have a: "\<not> built_in name (length args) \<longrightarrow>
      evaluate A ord (FunctionCallNode name args) vs =
        (Inl (runtime_error (''Unknown function: '' @ name)), vs)"
    by (intro impI evaluate_not_built_in)
  have b: "name \<in> set unary_functions \<longrightarrow>
      (\<exists>r. evaluate A ord (FunctionCallNode name [NumberNode v]) vs = (Inr r, vs))"
    by (intro impI evaluate_unary_built_in)
  have c: "name \<in> set binary_functions \<longrightarrow>
      (\<exists>r. evaluate A ord (FunctionCallNode name [NumberNode v, NumberNode u]) vs = (Inr r, vs))"
    by (intro impI evaluate_binary_built_in)
  have d: "length unary_functions = 19 \<and> distinct unary_functions \<and>
      length binary_functions = 3 \<and> distinct binary_functions"
    by (simp add: unary_functions_def binary_functions_def)
  from a b c d show ?thesis by (intro conjI) simp_all
qed

theorem unknown_function_error_witness:
  "\<not> built_in ''pow'' (length [NumberNode (Exact 2)]) \<and>
   evaluate exact_ops as_written (FunctionCallNode ''pow'' [NumberNode (Exact 2)]) [] =
     (Inl (runtime_error ''Unknown function: pow''), []) \<and>
   ''abs'' \<in> set unary_functions \<and>
   evaluate exact_ops as_written (FunctionCallNode ''abs'' [NumberNode (Exact 2)]) [] =
     (Inr (Apply ''abs'' [Exact 2]), [])"
  using unknown_function_error [of "''pow''" "[NumberNode (Exact 2)]" exact_ops as_written "[]"]
  by (simp add: built_in_def unary_functions_def binary_functions_def comp_simps exact_ops_def)

text \<open>
  C6 as stated fails: \<open>pow\<close> with one, with no and with three arguments throws the very same
  message, which therefore does not tell the number of arguments supplied; and the
  functions of one argument are nineteen, not eighteen.
\<close>

theorem unknown_function_arity_counterexample:
  "evaluate exact_ops as_written (FunctionCallNode ''pow'' [NumberNode (Exact 2)]) [] =
     (Inl (runtime_error ''Unknown function: pow''), []) \<and>
   evaluate exact_ops as_written (FunctionCallNode ''pow'' []) [] =
     (Inl (runtime_error ''Unknown function: pow''), []) \<and>
   evaluate exact_ops as_written
       (FunctionCallNode ''pow'' [NumberNode (Exact 2), NumberNode (Exact 3), NumberNode (Exact 4)]) [] =
     (Inl (runtime_error ''Unknown function: pow''), []) \<and>
   length (remdups unary_functions) = 19"
  by (simp add: throw_def unary_functions_def)

section \<open>Failure and the environment\<close>

lemma grows_ret: "grows (ret a)"
  by (simp add: grows_def ret_def)

lemma grows_throw: "grows (throw e)"
  by (simp add: grows_def throw_def)

lemma grows_bind:
  assumes "grows m" and "\<And>a. grows (f a)"
  shows "grows (bind m f)"
  unfolding grows_def
proof
  fix vs
  from assms(1) obtain cs where m: "snd (m vs) = cs @ vs" by (auto simp: grows_def)
  show "\<exists>cs. snd (bind m f vs) = cs @ vs"
  proof (cases "m vs")
    case (Pair r vs1)
    with m have vs1: "vs1 = cs @ vs" by simp
    show ?thesis
    proof (cases r)
      case (Inl e)
      with Pair vs1 show ?thesis by (simp add: bind_def)
    next
      case (Inr a)
      from assms(2)[of a] obtain ds where "snd (f a vs1) = ds @ vs1" by (auto simp: grows_def)
      with Pair Inr vs1 show ?thesis by (simp add: bind_def)
    qed
  qed
qed

lemma grows_operands:
  assumes "grows m1" and "grows m2"
  shows "grows (operands ord m1 m2)"
  using assms by (cases ord) (simp_all add: grows_bind grows_ret)

lemma grows_assign: "grows (\<lambda>variables. ret v (umapsd_assign name v variables))"
  by (simp add: grows_def ret_def umapsd_assign_def)

lemma grows_lookup:
  "grows (\<lambda>variables. case umapsd_find variables name of
            None \<Rightarrow> throw e variables | Some v \<Rightarrow> ret v variables)"
  by (simp add: grows_def ret_def throw_def split: option.split)

lemma grows_if: "grows a \<Longrightarrow> grows b \<Longrightarrow> grows (if c then a else b)"
  by simp

lemma grows_case_prod: "(\<And>a b. grows (f a b)) \<Longrightarrow> grows (case p of (a, b) \<Rightarrow> f a b)"
  by (cases p) simp

lemma grows_evaluate: "grows (evaluate A ord t)"
proof (induction t)
  case (NumberNode v)
  show ?case by (simp add: grows_ret)
next
  case (VariableNode name)
  show ?case by (simp add: grows_lookup)
next
  case (AssignmentNode name t)
  then show ?case by (simp add: grows_bind grows_assign)
next
  case (FunctionCallNode functionName args)
  consider (zero) "args = []" | (one) a where "args = [a]" | (two) a b where "args = [a, b]"
    | (more) a b c rest where "args = a # b # c # rest"
    by (cases args rule: list.exhaust, simp, rename_tac a as, case_tac as, simp,
        rename_tac b bs, case_tac bs, auto)
  then show ?case
  proof cases
    case zero
    then show ?thesis by (simp add: grows_throw)
  next
    case one
    with FunctionCallNode have a: "grows (evaluate A ord a)" by simp
    show ?thesis
      unfolding one evaluate.simps
      by (intro grows_if grows_bind grows_ret grows_throw a)
  next
    case two
    with FunctionCallNode have a: "grows (evaluate A ord a)" and b: "grows (evaluate A ord b)"
      by simp_all
    show ?thesis
      unfolding two evaluate.simps
      by (intro grows_if grows_bind grows_case_prod grows_operands grows_ret grows_throw a b)
  next
    case more
    then show ?thesis by (simp add: grows_throw)
  qed
next
  case (UnaryOpNode op t)
  then show ?case by (simp add: grows_bind grows_ret grows_throw)
next
  case (BinaryOpNode op l r)
  then show ?case by (simp add: grows_bind grows_ret grows_throw)
qed

lemma evaluate_keeps:
  assumes "evaluate A ord t vs = (r, vs')"
  shows "\<exists>cs. vs' = cs @ vs"
  using grows_evaluate[of A ord t] assms by (auto simp: grows_def dest: spec[of _ vs])

lemma calculate_keeps:
  assumes "calculate A ord line vs = (r, vs')"
  shows "\<exists>cs. vs' = cs @ vs"
  using assms evaluate_keeps
  by (fastforce simp: calculate_def split: sum.splits prod.splits)








section \<open>Errors of a command line\<close>

text \<open>
  C1 does not hold of the code. \<^verbatim>\<open>commandsDivide\<close> is called outside the try block of
  \<^verbatim>\<open>process\<close>: on the line that holds a colon and one double quote its exception leaves
  \<^verbatim>\<open>process\<close>, and the line \<open>1 + 1\<close> after it is never read.
\<close>

theorem unclosed_quote_ends_session:
  "process exact_ops as_written no_files [[CHR '':'', dquote], ''1 + 1''] True default_options 0
     initial_world =
   Inl (runtime_error ''Unclosed quote in input string.'')"
  by (simp add: process_simps divide_simps MAX_DEPTH_def)

text \<open>
  X1. The exception of a command line leaves the driver: when the tokenization of a line
  that begins with a colon throws, \<^verbatim>\<open>process\<close> ends with that exception, whatever lines
  follow and at any depth within the cap.
\<close>

theorem command_line_error_leaves_process:
  assumes "commandsDivide line = Inl e" and "\<not> MAX_DEPTH < depth"
  shows "process A ord fs (line # rest) write opts depth w = Inl e"
proof -
  from assms(1) have "line \<noteq> []" "hd line = CHR '':''"
    by (auto simp: commandsDivide_def split: if_splits)
  then have "process_line A ord fs line write opts depth w' = Inl e" for w'
    using assms(1) by (simp add: process_line.simps)
  then show ?thesis
    using assms(2) by (simp add: process.simps process_loop.simps Let_def)
qed

theorem command_line_error_leaves_process_witness:
  "commandsDivide '':file 'a'' = Inl (runtime_error ''Unclosed quote in input string.'') \<and>
   \<not> MAX_DEPTH < 0 \<and>
   process exact_ops as_written no_files ['':file 'a'', ''1 + 1''] False default_options 0
     initial_world = Inl (runtime_error ''Unclosed quote in input string.'')"
proof -
  have a: "commandsDivide '':file 'a'' = Inl (runtime_error ''Unclosed quote in input string.'')"
    by (simp add: divide_simps)
  have b: "\<not> MAX_DEPTH < 0"
    by (simp add: MAX_DEPTH_def)
  note t = command_line_error_leaves_process [OF a b, of exact_ops as_written no_files
      "[''1 + 1'']" False default_options initial_world]
  show ?thesis
    by (rule conjI [OF a conjI [OF b t]])
qed

text \<open>
  X2. The errors of expression lines are caught: on a stream without command lines the
  driver never ends with an exception, whatever the lines hold.
\<close>

theorem expression_lines_never_leave_process:
  assumes "\<forall>l\<in>set stream. l = [] \<or> hd l \<noteq> CHR '':''"
  shows "\<exists>w'. process A ord fs stream write opts depth w = Inr w'"
proof -
  have line: "\<exists>w'. process_line A ord fs l write opts depth w = Inr (Continue w')"
    if "l = [] \<or> hd l \<noteq> CHR '':''" for l w
    using that by (auto simp: process_line.simps split: prod.splits sum.splits)
  have "\<exists>w'. process_loop A ord fs stream write opts depth w = Inr w'"
    using assms
  proof (induction stream arbitrary: w)
    case Nil
    show ?case by (simp add: process_loop.simps Let_def)
  next
    case (Cons l stream)
    let ?w1 = "if write then print (Cout ''> '') w else w"
    from Cons.prems line[of l ?w1] obtain w2 where
      l: "process_line A ord fs l write opts depth ?w1 = Inr (Continue w2)"
      by auto
    from Cons.prems have "\<forall>l\<in>set stream. l = [] \<or> hd l \<noteq> CHR '':''" by simp
    from Cons.IH[OF this, of w2] l show ?case
      by (subst process_loop.simps) (simp add: Let_def)
  qed
  then show ?thesis
    by (simp add: process.simps)
qed

theorem expression_lines_never_leave_process_witness:
  "process exact_ops as_written no_files [''1 +'', ''2 * 3''] True default_options 0
     initial_world =
   Inr \<lparr>variables = [(''Ans'', Exact 6), (''Ans'', Exact 0)],
        printed = [Cout ''> '', Cerr (red @ ''Error: Unexpected token: '' @ reset @ endl),
                   Cout ''> '', Cout_Ans (Exact 6), Cout ''> '']\<rparr>"
proof -
  have a: "\<forall>l\<in>set [''1 +'', ''2 * 3'']. l = [] \<or> hd l \<noteq> CHR '':''"
    by simp
  from expression_lines_never_leave_process [OF a, of exact_ops as_written no_files True
      default_options 0 initial_world]
  obtain w' where "process exact_ops as_written no_files [''1 +'', ''2 * 3''] True
      default_options 0 initial_world = Inr w'" ..
  moreover have "process exact_ops as_written no_files [''1 +'', ''2 * 3''] True
      default_options 0 initial_world =
    Inr \<lparr>variables = [(''Ans'', Exact 6), (''Ans'', Exact 0)],
        printed = [Cout ''> '', Cerr (red @ ''Error: Unexpected token: '' @ reset @ endl),
                   Cout ''> '', Cout_Ans (Exact 6), Cout ''> '']\<rparr>"
    by (simp add: process_simps calculate_def parse_simps lex_simps comp_simps exact_simps
        initial_world_def print_def default_options_def MAX_DEPTH_def)
  ultimately show ?thesis by simp
qed

section \<open>The depth cap\<close>

lemma process_beyond_cap:
  "MAX_DEPTH < depth \<Longrightarrow> process A ord fs stream write opts depth w = Inr w"
  by (simp add: process.simps)

lemma process_sourcing_only:
  assumes L: "\<forall>l\<in>L. \<exists>path l'. commandsDivide l = Inr [''file'', path] \<and> fs path = Some [l'] \<and> l' \<in> L"
    and "line \<in> L"
  shows "process A ord fs [line] False opts depth w = Inr w"
  using assms(2)
proof (induction "nat (MAX_DEPTH + 1 - depth)" arbitrary: depth line)
  case 0
  then show ?case by (simp add: process.simps)
next
  case (Suc n)
  then have le: "\<not> MAX_DEPTH < depth" and n: "n = nat (MAX_DEPTH + 1 - (depth + 1))" by auto
  from L Suc.prems obtain path l' where c: "commandsDivide line = Inr [''file'', path]"
    and f: "fs path = Some [l']" and l': "l' \<in> L"
    by blast
  from c have ne: "line \<noteq> []" "hd line = CHR '':''"
    by (auto simp: commandsDivide_def split: if_splits)
  have "process_line A ord fs line False opts depth w = Inr (Continue w)"
    using ne c f Suc(1)[OF n l'] by (simp add: process_line.simps process_files.simps)
  then show ?case using le
    by (simp add: process.simps process_loop.simps)
qed

text \<open>
  C8. A call of the driver at a depth above \<open>MAX_DEPTH\<close>, which is 128, returns at once:
  the state is the one it was given, no line is read, nothing is printed and no exception
  is thrown. So sourcing that never ends by itself ends at the cap: when every file
  reached holds one line that sources a next file of the same kind (a file that sources
  itself, a cycle of files, a chain without end), the driver returns from any depth and
  leaves the state as it was. That the driver returns on every file system and every
  stream is the termination proof of \<open>process\<close> above.
\<close>

theorem depth_cap:
  "(MAX_DEPTH < depth \<longrightarrow> process A ord fs stream write opts depth w = Inr w) \<and>
   ((\<forall>l\<in>L. \<exists>path l'. commandsDivide l = Inr [''file'', path] \<and> fs path = Some [l'] \<and> l' \<in> L) \<and>
    line \<in> L \<longrightarrow>
      process A ord fs [line] False opts depth w = Inr w) \<and>
   MAX_DEPTH = 128"
proof -
  have a: "MAX_DEPTH < depth \<longrightarrow> process A ord fs stream write opts depth w = Inr w"
    by (intro impI process_beyond_cap)
  have b: "(\<forall>l\<in>L. \<exists>path l'. commandsDivide l = Inr [''file'', path] \<and> fs path = Some [l'] \<and> l' \<in> L) \<and>
    line \<in> L \<longrightarrow> process A ord fs [line] False opts depth w = Inr w"
    using process_sourcing_only [of L fs line] by (intro impI) (elim conjE)
  from a b MAX_DEPTH_def show ?thesis by (intro conjI)
qed

theorem depth_cap_witness:
  "MAX_DEPTH < 129 \<and>
   process exact_ops as_written no_files [''1 + 1''] True default_options 129 initial_world =
     Inr initial_world \<and>
   commandsDivide '':file a.scalc'' = Inr [''file'', ''a.scalc''] \<and>
   commandsDivide '':file b.scalc'' = Inr [''file'', ''b.scalc''] \<and>
   two_files ''a.scalc'' = Some ['':file b.scalc''] \<and>
   two_files ''b.scalc'' = Some ['':file a.scalc''] \<and>
   process exact_ops as_written two_files ['':file a.scalc''] False default_options 0
     initial_world = Inr initial_world"
proof -
  let ?L = "{'':file a.scalc'', '':file b.scalc''}"
  have a: "MAX_DEPTH < 129"
    by (simp add: MAX_DEPTH_def)
  have b: "commandsDivide '':file a.scalc'' = Inr [''file'', ''a.scalc'']"
    by (simp add: divide_simps)
  have c: "commandsDivide '':file b.scalc'' = Inr [''file'', ''b.scalc'']"
    by (simp add: divide_simps)
  have d: "two_files ''a.scalc'' = Some ['':file b.scalc'']"
    by (simp add: two_files_def)
  have e: "two_files ''b.scalc'' = Some ['':file a.scalc'']"
    by (simp add: two_files_def)
  have f: "(\<forall>l\<in>?L. \<exists>path l'. commandsDivide l = Inr [''file'', path] \<and>
      two_files path = Some [l'] \<and> l' \<in> ?L) \<and> '':file a.scalc'' \<in> ?L"
    using b c d e by simp
  note t = depth_cap [of 129 exact_ops as_written no_files "[''1 + 1'']" True default_options
      initial_world ?L "'':file a.scalc''"]
  note u = depth_cap [of 0 exact_ops as_written two_files "[]" False default_options
      initial_world ?L "'':file a.scalc''"]
  have g: "process exact_ops as_written no_files [''1 + 1''] True default_options 129
      initial_world = Inr initial_world"
    by (rule mp [OF t [THEN conjunct1] a])
  have h: "process exact_ops as_written two_files ['':file a.scalc''] False
      default_options 0 initial_world = Inr initial_world"
    by (rule mp [OF u [THEN conjunct2, THEN conjunct1] f])
  show ?thesis
    by (rule conjI [OF a conjI [OF g conjI [OF b conjI [OF c conjI [OF d conjI [OF e h]]]]]])
qed

section \<open>Command tokenization\<close>

lemma same_state_step:
  "same_state st sp \<Longrightarrow> same_state (divide_step c st) (spec_step c sp)"
  by (auto simp: same_state_def divide_step_def spec_step_def)

lemma same_state_fold:
  "same_state st sp \<Longrightarrow> same_state (fold divide_step s st) (fold spec_step s sp)"
  by (induction s arbitrary: st sp) (simp_all add: same_state_step)

lemma commandsDivide_spec: "commandsDivide (CHR '':'' # s) = spec_split s"
proof -
  have "same_state (fold divide_step s divide_init)
     (fold spec_step s
        \<lparr>s_terms = [], s_cur = [], inQuotes = False, quoteChar = nul, escaping = False\<rparr>)"
    by (rule same_state_fold) (simp add: same_state_def divide_init_def)
  then show ?thesis
    by (auto simp: commandsDivide_def spec_split_def Let_def same_state_def)
qed

lemma divide_step_no_empty:
  "[] \<notin> set (terms st) \<Longrightarrow> [] \<notin> set (terms (divide_step c st))"
  by (simp add: divide_step_def)

lemma divide_fold_no_empty:
  "[] \<notin> set (terms st) \<Longrightarrow> [] \<notin> set (terms (fold divide_step s st))"
  by (induction s arbitrary: st) (simp_all add: divide_step_no_empty)

lemma commandsDivide_no_empty:
  assumes "commandsDivide inp = Inr ts"
  shows "[] \<notin> set ts"
proof -
  have "[] \<notin> set (terms (fold divide_step (tl inp) divide_init))"
    by (rule divide_fold_no_empty) (simp add: divide_init_def)
  with assms show ?thesis
    by (auto simp: commandsDivide_def Let_def split: if_splits)
qed

lemma divide_fold_plain:
  assumes "list_all (\<lambda>c. c \<notin> {CHR '' '', dquote, squote, backslash}) w"
    and "\<not> escape st" and "\<not> in_quotes st"
  shows "fold divide_step w st = st\<lparr>cur := cur st @ w\<rparr>"
  using assms
proof (induction w arbitrary: st)
  case Nil
  then show ?case by simp
next
  case (Cons c w)
  then have "divide_step c st = st\<lparr>cur := cur st @ [c]\<rparr>"
    by (simp add: divide_step_def)
  with Cons show ?case by simp
qed

lemma divide_fold_words:
  assumes "list_all plain ws" and "\<not> escape st" and "\<not> in_quotes st" and "cur st = []"
  shows "fold divide_step (concat (map (\<lambda>w. w @ '' '') ws)) st = st\<lparr>terms := terms st @ ws\<rparr>"
  using assms
proof (induction ws arbitrary: st)
  case Nil
  then show ?case by simp
next
  case (Cons w ws)
  then have w: "w \<noteq> []" "list_all (\<lambda>c. c \<notin> {CHR '' '', dquote, squote, backslash}) w"
    by (simp_all add: plain_def)
  have 1: "fold divide_step w st = st\<lparr>cur := w\<rparr>"
    using divide_fold_plain[OF w(2) Cons.prems(2,3)] Cons.prems(4) by simp
  have 2: "divide_step CHR '' '' (st\<lparr>cur := w\<rparr>) = st\<lparr>terms := terms st @ [w], cur := []\<rparr>"
    using w(1) Cons.prems by (simp add: divide_step_def backslash_def dquote_def squote_def)
  have 3: "fold divide_step (concat (map (\<lambda>w. w @ '' '') ws)) (st\<lparr>terms := terms st @ [w], cur := []\<rparr>)
      = st\<lparr>terms := terms st @ [w], cur := []\<rparr>\<lparr>terms := terms (st\<lparr>terms := terms st @ [w], cur := []\<rparr>) @ ws\<rparr>"
    using Cons.prems by (intro Cons.IH) simp_all
  show ?case
    using 1 2 3 Cons.prems(4) by simp
qed

lemma commandsDivide_words:
  assumes "list_all plain ws"
  shows "commandsDivide (CHR '':'' # concat (map (\<lambda>w. w @ '' '') ws)) = Inr ws"
  using divide_fold_words[OF assms, of divide_init]
  by (simp add: commandsDivide_def divide_init_def)

text \<open>
  C7. On a line that begins with a colon \<^verbatim>\<open>commandsDivide\<close> computes what the state machine
  of the specification computes on the rest of the line. It never returns an empty term.
  Plain words, each followed by one space, come back as they are and in their order. The
  line that holds \<open>:file\<close>, then \<open>a b.txt\<close> in double quotes, then \<open>c.txt\<close> in single quotes,
  splits into exactly \<open>file\<close>, \<open>a b.txt\<close>, \<open>c.txt\<close>; a line that ends inside a quote throws
  \<^verbatim>\<open>Unclosed quote in input string.\<close>
\<close>

theorem command_tokenizer:
  "commandsDivide (CHR '':'' # s) = spec_split s \<and>
   (commandsDivide inp = Inr ts \<longrightarrow> [] \<notin> set ts) \<and>
   (list_all plain ws \<longrightarrow>
      commandsDivide (CHR '':'' # concat (map (\<lambda>w. w @ '' '') ws)) = Inr ws) \<and>
   commandsDivide ('':file '' @ [dquote] @ ''a b.txt'' @ [dquote] @ '' '' @ [squote] @ ''c.txt'' @ [squote])
     = Inr [''file'', ''a b.txt'', ''c.txt''] \<and>
   commandsDivide ('':file '' @ [dquote] @ ''a b.txt'')
     = Inl (runtime_error ''Unclosed quote in input string.'')"
proof -
  have a: "commandsDivide inp = Inr ts \<longrightarrow> [] \<notin> set ts"
    by (intro impI commandsDivide_no_empty)
  have b: "list_all plain ws \<longrightarrow>
      commandsDivide (CHR '':'' # concat (map (\<lambda>w. w @ '' '') ws)) = Inr ws"
    by (intro impI commandsDivide_words)
  have c: "commandsDivide ('':file '' @ [dquote] @ ''a b.txt'' @ [dquote] @ '' '' @ [squote] @ ''c.txt'' @ [squote])
     = Inr [''file'', ''a b.txt'', ''c.txt'']"
    by (simp add: divide_simps)
  have d: "commandsDivide ('':file '' @ [dquote] @ ''a b.txt'')
     = Inl (runtime_error ''Unclosed quote in input string.'')"
    by (simp add: divide_simps)
  from commandsDivide_spec a b c d show ?thesis
    by (intro conjI)
qed

theorem command_tokenizer_witness:
  "commandsDivide '':f a b'' = Inr [''f'', ''a'', ''b''] \<and> [] \<notin> set [''f'', ''a'', ''b''] \<and>
   list_all plain [''file'', ''init.scalc''] \<and>
   commandsDivide (CHR '':'' # concat (map (\<lambda>w. w @ '' '') [''file'', ''init.scalc'']))
     = Inr [''file'', ''init.scalc'']"
proof -
  have a: "commandsDivide '':f a b'' = Inr [''f'', ''a'', ''b'']"
    by (simp add: divide_simps)
  have b: "list_all plain [''file'', ''init.scalc'']"
    by (simp add: plain_def backslash_def dquote_def squote_def)
  note t = command_tokenizer [of "[]" "'':f a b''" "[''f'', ''a'', ''b'']" "[''file'', ''init.scalc'']"]
  from t a have c: "[] \<notin> set [''f'', ''a'', ''b'']"
    by (elim conjE) (erule mp)
  from t b have d: "commandsDivide (CHR '':'' # concat (map (\<lambda>w. w @ '' '') [''file'', ''init.scalc'']))
     = Inr [''file'', ''init.scalc'']"
    by (elim conjE) (erule mp)
  from a b c d show ?thesis by (intro conjI)
qed

section \<open>Number tokens and their conversion\<close>

lemma number_char_not_space: "number_char c \<Longrightarrow> \<not> isspace c"
  by (auto simp: number_char_def isdigit_def isspace_def)

lemma takeWhile_run:
  assumes "list_all P run" and "rest = [] \<or> \<not> P (hd rest)"
  shows "takeWhile P (run @ rest) = run"
proof -
  have "takeWhile P (run @ rest) = run @ takeWhile P rest"
    using assms(1) by (intro takeWhile_append2) (simp add: list_all_iff)
  moreover have "takeWhile P rest = []"
    using assms(2) by (cases rest) auto
  ultimately show ?thesis by simp
qed

lemma decimal_prefix_prefix:
  assumes "decimal_prefix s = Some p"
  shows "prefix p s \<and> decimal_numeral p"
proof -
  let ?ip = "takeWhile isdigit s" and ?r = "dropWhile isdigit s"
  have s: "s = ?ip @ ?r" by simp
  have dr: "drop (length ?ip) s = ?r" by (simp add: dropWhile_eq_drop)
  have ipd: "list_all isdigit ?ip"
    by (simp add: list_all_iff) (meson set_takeWhileD)
  show ?thesis
  proof (cases "?r \<noteq> [] \<and> hd ?r = CHR ''.''")
    case True
    then obtain t where r: "?r = CHR ''.'' # t" by (cases ?r) auto
    let ?fp = "takeWhile isdigit t"
    from assms have p: "p = ?ip @ ''.'' @ ?fp" and ne: "?ip \<noteq> [] \<or> ?fp \<noteq> []"
      unfolding decimal_prefix_def Let_def dr r by (auto split: if_splits)
    have "s = ?ip @ ''.'' @ ?fp @ dropWhile isdigit t"
      using s r by (metis append_Cons append_Nil takeWhile_dropWhile_id)
    then have pre: "prefix p s" unfolding p by (metis append.assoc prefixI)
    have nd: "\<not> isdigit CHR ''.''" by (simp add: isdigit_def)
    have fpd: "list_all isdigit ?fp"
      by (simp add: list_all_iff) (meson set_takeWhileD)
    have tk: "takeWhile isdigit p = ?ip"
      unfolding p using ipd nd takeWhile_run[of isdigit ?ip "''.'' @ ?fp"] by simp
    have dk: "dropWhile isdigit p = ''.'' @ ?fp"
      using tk p by (metis append_same_eq takeWhile_dropWhile_id append_eq_append_conv)
    have "decimal_numeral p"
      using tk dk fpd ne by (simp add: decimal_numeral_def Let_def)
    with pre show ?thesis by simp
  next
    case False
    with assms have p: "p = ?ip" and ne: "?ip \<noteq> []"
      unfolding decimal_prefix_def Let_def dr by (auto split: if_splits)
    have "prefix p s" unfolding p by (metis s prefixI)
    moreover have "takeWhile isdigit ?ip = ?ip" "dropWhile isdigit ?ip = []"
      using ipd by (simp_all add: list_all_iff)
    then have "decimal_numeral p" using ne by (simp add: decimal_numeral_def p Let_def)
    ultimately show ?thesis by simp
  qed
qed

lemma decimal_numeral_prefix_le:
  assumes "prefix q s" and "decimal_numeral q"
  shows "\<exists>p. decimal_prefix s = Some p \<and> length q \<le> length p"
proof -
  let ?iq = "takeWhile isdigit q" and ?rq = "dropWhile isdigit q"
  from assms(1) obtain t where s: "s = q @ t" by (auto simp: prefix_def)
  have q: "q = ?iq @ ?rq" by simp
  have nd: "\<not> isdigit CHR ''.''" by (simp add: isdigit_def)
  show ?thesis
  proof (cases "?rq = []")
    case True
    with assms(2) have ne: "?iq \<noteq> []" by (simp add: decimal_numeral_def Let_def)
    from True have qd: "list_all isdigit q"
      by (simp add: list_all_iff)
    have ip: "takeWhile isdigit s = q @ takeWhile isdigit t"
      unfolding s using qd by (intro takeWhile_append2) (simp add: list_all_iff)
    then have ipne: "takeWhile isdigit s \<noteq> []" using ne True q by auto
    have "\<exists>p. decimal_prefix s = Some p \<and> length (takeWhile isdigit s) \<le> length p"
      using ipne by (auto simp: decimal_prefix_def Let_def)
    with ip show ?thesis by auto
  next
    case False
    with assms(2) obtain fq where rq: "?rq = CHR ''.'' # fq" and fqd: "list_all isdigit fq"
      and ne: "?iq \<noteq> [] \<or> fq \<noteq> []"
      by (cases ?rq) (auto simp: decimal_numeral_def Let_def)
    have iqd: "list_all isdigit ?iq"
      by (simp add: list_all_iff) (meson set_takeWhileD)
    have s': "s = ?iq @ (CHR ''.'' # fq @ t)"
      using s q rq by (metis append.assoc append_Cons)
    have ip: "takeWhile isdigit s = ?iq"
      using takeWhile_run[of isdigit ?iq "CHR ''.'' # fq @ t"] iqd nd s' by simp
    have dr: "drop (length ?iq) s = CHR ''.'' # fq @ t"
      using s' by (metis append_eq_conv_conj)
    have fp: "takeWhile isdigit (fq @ t) = fq @ takeWhile isdigit t"
      using fqd by (intro takeWhile_append2) (simp add: list_all_iff)
    have "decimal_prefix s = Some (?iq @ ''.'' @ fq @ takeWhile isdigit t)"
      unfolding decimal_prefix_def Let_def ip dr using fp ne by auto
    moreover have "length q \<le> length (?iq @ ''.'' @ fq @ takeWhile isdigit t)"
      using q rq by (metis append.assoc append_Cons append_Nil le_add1 length_append)
    ultimately show ?thesis by blast
  qed
qed

lemma calculate_1_2_3:
  "calculate A ord ''1.2.3'' vs =
     (case strtod_value A ''1.2'' of Inl e \<Rightarrow> (Inl e, vs) | Inr v \<Rightarrow> (Inr v, vs))"
  by (simp add: calculate_def parse_simps lex_simps comp_simps split: sum.splits)

lemma getNextToken_number_at:
  assumes "list_all isspace ws" and "run \<noteq> []" and "list_all number_char run"
    and "rest = [] \<or> \<not> number_char (hd rest)"
  shows "getNextToken \<lparr>input = pre @ ws @ run @ rest, pos = length pre\<rparr> =
           Inr (Token NUMBER run,
                \<lparr>input = pre @ ws @ run @ rest, pos = length pre + length ws + length run\<rparr>)"
proof -
  let ?inp = "pre @ ws @ run @ rest"
  from assms(2) obtain c cs where run: "run = c # cs" by (cases run) auto
  with assms(3) have c: "number_char c" by simp
  have d0: "drop (length pre) ?inp = ws @ run @ rest" by simp
  have sp: "takeWhile isspace (ws @ run @ rest) = ws"
    using takeWhile_run[of isspace ws "run @ rest"] assms(1) number_char_not_space[OF c]
    by (simp add: run)
  have d1: "drop (length pre + length ws) ?inp = run @ rest"
    by (simp add: drop_append)
  have tw: "takeWhile (\<lambda>c. isdigit c \<or> c = CHR ''.'') (run @ rest) = run"
    using takeWhile_run[of number_char run rest] assms(3,4)
    by (simp add: number_char_def[abs_def])
  have nth: "?inp ! (length pre + length ws) = c"
    using nth_append_length[of "pre @ ws" c "cs @ rest"] by (simp add: run)
  have lt: "\<not> length ?inp \<le> length pre + length ws" using assms(2) by simp
  have cc: "isdigit c \<or> c = CHR ''.''" using c by (simp add: number_char_def)
  show ?thesis
    unfolding getNextToken_def Let_def Lexer.select_convs Lexer.update_convs d0 sp d1 tw nth
      if_not_P[OF lt] if_P[OF cc]
    by (rule refl)
qed


lemma prefix_same_length:
  assumes "prefix p s" and "prefix q s" and "length p = length q"
  shows "p = q"
  using assms by (metis prefix_length_prefix order_refl prefix_order.antisym)

lemma stod_longest:
  assumes "prefix q s" and "decimal_numeral q"
    and "\<forall>q'. prefix q' s \<and> decimal_numeral q' \<longrightarrow> length q' \<le> length q"
  shows "stod A s = strtod_value A q"
proof -
  from decimal_numeral_prefix_le[OF assms(1,2)]
  obtain p where p: "decimal_prefix s = Some p" and le: "length q \<le> length p"
    by (elim exE conjE)
  from decimal_prefix_prefix[OF p] have pp: "prefix p s" and pn: "decimal_numeral p"
    by simp_all
  from assms(3) pp pn have "length p \<le> length q" by simp
  with le have "length p = length q" by simp
  from prefix_same_length[OF pp assms(1) this] p show ?thesis
    by (simp add: stod_def)
qed

lemma stod_none:
  assumes "\<forall>q. prefix q s \<longrightarrow> \<not> decimal_numeral q"
  shows "stod A s = Inl (invalid_argument ''stod'')"
proof (cases "decimal_prefix s")
  case None
  then show ?thesis by (simp add: stod_def)
next
  case (Some p)
  from decimal_prefix_prefix[OF Some] assms show ?thesis by blast
qed

lemma getNextToken_past_end:
  assumes "length (input lx) \<le> pos lx"
  shows "getNextToken lx = Inr (Token END [], lx)"
  using assms by (simp add: getNextToken_def Let_def)

lemma calculate_number_line:
  assumes "run \<noteq> []" and "list_all number_char run"
  shows "calculate A ord (''Ans = '' @ run) vs =
           (case stod A run of
              Inl e \<Rightarrow> (Inl e, vs)
            | Inr v \<Rightarrow> (Inr v, (''Ans'', v) # vs))"
proof -
  define l where "l = ''Ans = '' @ run"
  let ?p0 = "\<lparr>lexer = \<lparr>input = l, pos = 3\<rparr>, curtToken = Token IDENTIFIER ''Ans''\<rparr>"
  let ?p1 = "\<lparr>lexer = \<lparr>input = l, pos = 5\<rparr>, curtToken = Token EQUAL []\<rparr>"
  let ?p2 = "\<lparr>lexer = \<lparr>input = l, pos = 6 + length run\<rparr>, curtToken = Token NUMBER run\<rparr>"
  let ?p3 = "\<lparr>lexer = \<lparr>input = l, pos = 6 + length run\<rparr>, curtToken = Token END []\<rparr>"
  have n: "Parser_new l = Inr ?p0"
    by (simp add: l_def lex_simps)
  have c0: "consume IDENTIFIER ?p0 = Inr ?p1"
    by (simp add: l_def lex_simps)
  have "getNextToken \<lparr>input = ''Ans ='' @ '' '' @ run @ [], pos = length ''Ans =''\<rparr> =
      Inr (Token NUMBER run,
        \<lparr>input = ''Ans ='' @ '' '' @ run @ [], pos = length ''Ans ='' + length '' '' + length run\<rparr>)"
    by (rule getNextToken_number_at) (simp_all add: assms isspace_def)
  then have g1: "getNextToken \<lparr>input = l, pos = 5\<rparr> =
      Inr (Token NUMBER run, \<lparr>input = l, pos = 6 + length run\<rparr>)"
    by (simp add: l_def eval_nat_numeral)
  have c1: "consume EQUAL ?p1 = Inr ?p2"
    using g1 by (simp add: consume_def)
  have g2: "getNextToken \<lparr>input = l, pos = 6 + length run\<rparr> =
      Inr (Token END [], \<lparr>input = l, pos = 6 + length run\<rparr>)"
    by (rule getNextToken_past_end) (simp add: l_def)
  have c2: "consume NUMBER ?p2 = Inr ?p3"
    using g2 by (simp add: consume_def)
  have tl: "\<And>n. parseTerm_loop A n ?p3 = Inr (n, ?p3)"
    by (subst parseTerm_loop.simps) simp
  have el: "\<And>n. parseExpression_loop A n ?p3 = Inr (n, ?p3)"
    by (subst parseExpression_loop.simps) simp
  have f: "parseFactor A ?p2 =
      (case stod A run of Inl e \<Rightarrow> Inl e | Inr v \<Rightarrow> Inr (NumberNode v, ?p3))"
    by (subst parseFactor.simps) (simp add: c2 split: sum.splits)
  have t: "parseTerm A ?p2 =
      (case stod A run of Inl e \<Rightarrow> Inl e | Inr v \<Rightarrow> Inr (NumberNode v, ?p3))"
    by (subst parseTerm.simps) (simp add: f tl split: sum.splits)
  have e: "parseExpression A ?p2 =
      (case stod A run of Inl e \<Rightarrow> Inl e | Inr v \<Rightarrow> Inr (NumberNode v, ?p3))"
    by (subst parseExpression.simps) (simp add: t el split: sum.splits)
  have f0: "parseFactor A ?p0 =
      (case stod A run of Inl e \<Rightarrow> Inl e
       | Inr v \<Rightarrow> Inr (AssignmentNode ''Ans'' (NumberNode v), ?p3))"
    by (subst parseFactor.simps) (simp add: c0 c1 e Let_def split: sum.splits)
  have t0: "parseTerm A ?p0 =
      (case stod A run of Inl e \<Rightarrow> Inl e
       | Inr v \<Rightarrow> Inr (AssignmentNode ''Ans'' (NumberNode v), ?p3))"
    by (subst parseTerm.simps) (simp add: f0 tl split: sum.splits)
  have e0: "parseExpression A ?p0 =
      (case stod A run of Inl e \<Rightarrow> Inl e
       | Inr v \<Rightarrow> Inr (AssignmentNode ''Ans'' (NumberNode v), ?p3))"
    by (subst parseExpression.simps) (simp add: t0 el split: sum.splits)
  have "calculate A ord l vs =
           (case stod A run of
              Inl e \<Rightarrow> (Inl e, vs)
            | Inr v \<Rightarrow> (Inr v, (''Ans'', v) # vs))"
    by (simp add: calculate_def n e0 comp_simps split: sum.splits)
  then show ?thesis by (simp only: l_def)
qed

text \<open>
  C10. Wherever the lexer stands, a run of digits and dots after optional white space that
  ends at the end of the input or before another character is one NUMBER token whose text
  is the whole run, however many dots it has. \<^verbatim>\<open>std::stod\<close>, which the parser calls on
  that text, converts the longest prefix of it that is a decimal numeral: what
  \<open>decimal_prefix\<close> returns is a prefix and a numeral, no prefix that is a numeral is
  longer, the result of \<open>stod\<close> is the conversion of the longest such prefix, and \<open>stod\<close>
  throws when no prefix is one. A line that is such a run evaluates to what \<open>stod\<close> makes
  of the run, and binds \<open>Ans\<close> to it. So \<open>1.2.3\<close> is read without error and evaluates to
  what the numeral \<open>1.2\<close> converts to.
\<close>

theorem number_token_longest_prefix:
  "(list_all isspace ws \<and> run \<noteq> [] \<and> list_all number_char run \<and>
    (rest = [] \<or> \<not> number_char (hd rest)) \<longrightarrow>
      getNextToken \<lparr>input = pre @ ws @ run @ rest, pos = length pre\<rparr> =
        Inr (Token NUMBER run,
             \<lparr>input = pre @ ws @ run @ rest, pos = length pre + length ws + length run\<rparr>)) \<and>
   (decimal_prefix s = Some p \<longrightarrow> prefix p s \<and> decimal_numeral p) \<and>
   (prefix q s \<and> decimal_numeral q \<longrightarrow>
      (\<exists>p. decimal_prefix s = Some p \<and> length q \<le> length p)) \<and>
   (prefix q s \<and> decimal_numeral q \<and>
    (\<forall>q'. prefix q' s \<and> decimal_numeral q' \<longrightarrow> length q' \<le> length q) \<longrightarrow>
      stod A s = strtod_value A q) \<and>
   ((\<forall>q'. prefix q' s \<longrightarrow> \<not> decimal_numeral q') \<longrightarrow>
      stod A s = Inl (invalid_argument ''stod'')) \<and>
   (run \<noteq> [] \<and> list_all number_char run \<longrightarrow>
      calculate A ord (''Ans = '' @ run) vs =
        (case stod A run of
           Inl e \<Rightarrow> (Inl e, vs)
         | Inr v \<Rightarrow> (Inr v, (''Ans'', v) # vs))) \<and>
   calculate A ord ''1.2.3'' vs =
     (case strtod_value A ''1.2'' of Inl e \<Rightarrow> (Inl e, vs) | Inr v \<Rightarrow> (Inr v, vs))"
proof -
  have a: "list_all isspace ws \<and> run \<noteq> [] \<and> list_all number_char run \<and>
    (rest = [] \<or> \<not> number_char (hd rest)) \<longrightarrow>
      getNextToken \<lparr>input = pre @ ws @ run @ rest, pos = length pre\<rparr> =
        Inr (Token NUMBER run,
             \<lparr>input = pre @ ws @ run @ rest, pos = length pre + length ws + length run\<rparr>)"
    by (intro impI, elim conjE, rule getNextToken_number_at)
  have b: "decimal_prefix s = Some p \<longrightarrow> prefix p s \<and> decimal_numeral p"
    by (intro impI decimal_prefix_prefix)
  have c: "prefix q s \<and> decimal_numeral q \<longrightarrow>
      (\<exists>p. decimal_prefix s = Some p \<and> length q \<le> length p)"
    by (intro impI, elim conjE, rule decimal_numeral_prefix_le)
  have d: "prefix q s \<and> decimal_numeral q \<and>
    (\<forall>q'. prefix q' s \<and> decimal_numeral q' \<longrightarrow> length q' \<le> length q) \<longrightarrow>
      stod A s = strtod_value A q"
    by (intro impI, elim conjE, rule stod_longest)
  have e: "(\<forall>q'. prefix q' s \<longrightarrow> \<not> decimal_numeral q') \<longrightarrow>
      stod A s = Inl (invalid_argument ''stod'')"
    by (intro impI, rule stod_none)
  have f: "run \<noteq> [] \<and> list_all number_char run \<longrightarrow>
      calculate A ord (''Ans = '' @ run) vs =
        (case stod A run of
           Inl e \<Rightarrow> (Inl e, vs)
         | Inr v \<Rightarrow> (Inr v, (''Ans'', v) # vs))"
    by (intro impI, elim conjE, rule calculate_number_line)
  from a b c d e f calculate_1_2_3[of A ord vs] show ?thesis
    by (intro conjI)
qed

theorem number_token_longest_prefix_witness:
  "(list_all isspace '' '' \<and> ''1.2.3'' \<noteq> [] \<and> list_all number_char ''1.2.3'' \<and>
    ('' + 1'' = [] \<or> \<not> number_char (hd '' + 1''))) \<and>
   getNextToken \<lparr>input = ''Ans ='' @ '' '' @ ''1.2.3'' @ '' + 1'', pos = length ''Ans =''\<rparr> =
     Inr (Token NUMBER ''1.2.3'',
          \<lparr>input = ''Ans ='' @ '' '' @ ''1.2.3'' @ '' + 1'',
             pos = length ''Ans ='' + length '' '' + length ''1.2.3''\<rparr>) \<and>
   decimal_prefix ''1.2.3'' = Some ''1.2'' \<and> prefix ''1.2'' ''1.2.3'' \<and> decimal_numeral ''1.2'' \<and>
   stod exact_ops ''1.2.3'' = Inr (Exact (6 / 5)) \<and>
   stod exact_ops ''.'' = Inl (invalid_argument ''stod'') \<and>
   calculate exact_ops as_written (''Ans = '' @ ''1.2.3'') [] =
     (Inr (Exact (6 / 5)), [(''Ans'', Exact (6 / 5))]) \<and>
   calculate exact_ops as_written ''1.2.3'' [] = (Inr (Exact (6 / 5)), [])"
proof -
  have a: "list_all isspace '' '' \<and> ''1.2.3'' \<noteq> [] \<and> list_all number_char ''1.2.3'' \<and>
      ('' + 1'' = [] \<or> \<not> number_char (hd '' + 1''))"
    by (simp add: number_char_def isdigit_def isspace_def)
  have b: "decimal_prefix ''1.2.3'' = Some ''1.2''"
    by (simp add: decimal_prefix_def isdigit_def)
  note t = number_token_longest_prefix [where ws = "'' ''" and run = "''1.2.3''"
      and rest = "'' + 1''" and pre = "''Ans =''" and s = "''1.2.3''" and p = "''1.2''"
      and q = "''1.2''" and A = exact_ops and ord = as_written and vs = "[]"]
  note u = number_token_longest_prefix [where s = "''.''" and A = exact_ops]
  have c: "getNextToken \<lparr>input = ''Ans ='' @ '' '' @ ''1.2.3'' @ '' + 1'', pos = length ''Ans =''\<rparr> =
     Inr (Token NUMBER ''1.2.3'',
          \<lparr>input = ''Ans ='' @ '' '' @ ''1.2.3'' @ '' + 1'',
             pos = length ''Ans ='' + length '' '' + length ''1.2.3''\<rparr>)"
    by (rule mp [OF t [THEN conjunct1] a])
  have d: "prefix ''1.2'' ''1.2.3'' \<and> decimal_numeral ''1.2''"
    by (rule mp [OF t [THEN conjunct2, THEN conjunct1] b])
  have e: "\<forall>q'. prefix q' ''1.2.3'' \<and> decimal_numeral q' \<longrightarrow> length q' \<le> length ''1.2''"
  proof (intro allI impI)
    fix q' assume "prefix q' ''1.2.3'' \<and> decimal_numeral q'"
    then have "\<exists>p. decimal_prefix ''1.2.3'' = Some p \<and> length q' \<le> length p"
      by (intro decimal_numeral_prefix_le) simp_all
    with b show "length q' \<le> length ''1.2''" by simp
  qed
  have f: "strtod_value exact_ops ''1.2'' = Inr (Exact (6 / 5))"
    by (simp add: exact_simps isdigit_def)
  have "stod exact_ops ''1.2.3'' = strtod_value exact_ops ''1.2''"
    by (rule mp [OF t [THEN conjunct2, THEN conjunct2, THEN conjunct2, THEN conjunct1]
          conjI [OF d [THEN conjunct1] conjI [OF d [THEN conjunct2] e]]])
  with f have g: "stod exact_ops ''1.2.3'' = Inr (Exact (6 / 5))" by simp
  have h: "\<forall>q'. prefix q' ''.'' \<longrightarrow> \<not> decimal_numeral q'"
    by (auto simp: prefix_Cons decimal_numeral_def isdigit_def)
  have i: "stod exact_ops ''.'' = Inl (invalid_argument ''stod'')"
    by (rule mp [OF u [THEN conjunct2, THEN conjunct2, THEN conjunct2, THEN conjunct2,
          THEN conjunct1] h])
  have "calculate exact_ops as_written (''Ans = '' @ ''1.2.3'') [] =
      (case stod exact_ops ''1.2.3'' of
         Inl e \<Rightarrow> (Inl e, [])
       | Inr v \<Rightarrow> (Inr v, (''Ans'', v) # []))"
    by (rule mp [OF t [THEN conjunct2, THEN conjunct2, THEN conjunct2, THEN conjunct2,
          THEN conjunct2, THEN conjunct1] conjI [OF a [THEN conjunct2, THEN conjunct1]
          a [THEN conjunct2, THEN conjunct2, THEN conjunct1]]])
  then have j: "calculate exact_ops as_written (''Ans = '' @ ''1.2.3'') [] =
      (Inr (Exact (6 / 5)), [(''Ans'', Exact (6 / 5))])"
    unfolding g by simp
  have "calculate exact_ops as_written ''1.2.3'' [] =
     (case strtod_value exact_ops ''1.2'' of Inl e \<Rightarrow> (Inl e, []) | Inr v \<Rightarrow> (Inr v, []))"
    by (rule t [THEN conjunct2, THEN conjunct2, THEN conjunct2, THEN conjunct2,
          THEN conjunct2, THEN conjunct2])
  then have k: "calculate exact_ops as_written ''1.2.3'' [] = (Inr (Exact (6 / 5)), [])"
    unfolding f by simp
  show ?thesis
    by (rule conjI [OF a conjI [OF c conjI [OF b conjI [OF d [THEN conjunct1]
          conjI [OF d [THEN conjunct2] conjI [OF g conjI [OF i conjI [OF j k]]]]]]]])
qed

section \<open>Properties of the parser\<close>

lemmas parse_induct =
  parseExpression_parseExpression_loop_parseTerm_parseTerm_loop_parseFactor_parseFunctionCall_parseFunctionCall_loop.induct


section \<open>The character for exponentiation\<close>


































lemma follows_not_END:
  assumes "follows pre rest ps qs"
  shows "type (curtToken ps) \<noteq> END"
  using assms by (simp add: follows_def)










section \<open>Every expression line assigns to Ans\<close>

lemma after_parse:
  fixes A :: "'d fp_ops"
  shows "\<forall>n ps'. parseExpression A ps1 = Inr (n, ps') \<longrightarrow> stops ps'"
    and "\<forall>n ps'. parseExpression_loop A n2 ps2 = Inr (n, ps') \<longrightarrow>
           type (curtToken ps2) \<notin> {MULTIPLY, DIVIDE} \<longrightarrow> stops ps'"
    and "\<forall>n ps'. parseTerm A ps3 = Inr (n, ps') \<longrightarrow> type (curtToken ps') \<notin> {MULTIPLY, DIVIDE}"
    and "\<forall>n ps'. parseTerm_loop A n4 ps4 = Inr (n, ps') \<longrightarrow>
           type (curtToken ps') \<notin> {MULTIPLY, DIVIDE}"
    and "True \<or> parseFactor A ps5 = x5"
    and "True \<or> parseFunctionCall A f6 ps6 = x6"
    and "True \<or> parseFunctionCall_loop A as7 ps7 = x7"
proof (induct A ps1 and A n2 ps2 and A ps3 and A n4 ps4 and A ps5 and A f6 ps6 and A as7 ps7
    rule: parse_induct)
  case (1 A ps)
  show ?case
  proof (intro allI impI)
    fix n ps' assume r: "parseExpression A ps = Inr (n, ps')"
    from r[unfolded parseExpression.simps[of A ps]]
    obtain nd ps1 where t: "parseTerm A ps = Inr (nd, ps1)"
      and l: "parseExpression_loop A nd ps1 = Inr (n, ps')"
      by (auto split: sum.splits)
    from 1(1) t have "type (curtToken ps1) \<notin> {MULTIPLY, DIVIDE}" by simp
    with 1(2)[OF t refl] l show "stops ps'" by simp
  qed
next
  case (2 A node ps)
  show ?case
  proof (intro allI impI)
    fix n ps' assume r: "parseExpression_loop A node ps = Inr (n, ps')"
      and i: "type (curtToken ps) \<notin> {MULTIPLY, DIVIDE}"
    show "stops ps'"
    proof (cases "type (curtToken ps) = PLUS \<or> type (curtToken ps) = MINUS")
      case False
      with r[unfolded parseExpression_loop.simps[of A node ps]] i show ?thesis
        by (simp add: stops_def)
    next
      case True
      with r[unfolded parseExpression_loop.simps[of A node ps]]
      obtain ps1 rhs ps2 where c: "consume (type (curtToken ps)) ps = Inr ps1"
        and t: "parseTerm A ps1 = Inr (rhs, ps2)"
        and l: "parseExpression_loop A (BinaryOpNode (type (curtToken ps)) node rhs) ps2 = Inr (n, ps')"
        by (auto simp: Let_def split: sum.splits)
      from 2(1)[OF True refl c] t have "type (curtToken ps2) \<notin> {MULTIPLY, DIVIDE}" by simp
      with 2(2)[OF True refl c t refl] l show ?thesis by simp
    qed
  qed
next
  case (3 A ps)
  show ?case
  proof (intro allI impI)
    fix n ps' assume r: "parseTerm A ps = Inr (n, ps')"
    from r[unfolded parseTerm.simps[of A ps]]
    obtain nd ps1 where t: "parseFactor A ps = Inr (nd, ps1)"
      and l: "parseTerm_loop A nd ps1 = Inr (n, ps')"
      by (auto split: sum.splits)
    with 3(2)[OF t refl] l show "type (curtToken ps') \<notin> {MULTIPLY, DIVIDE}" by simp
  qed
next
  case (4 A node ps)
  show ?case
  proof (intro allI impI)
    fix n ps' assume r: "parseTerm_loop A node ps = Inr (n, ps')"
    show "type (curtToken ps') \<notin> {MULTIPLY, DIVIDE}"
    proof (cases "type (curtToken ps) = MULTIPLY \<or> type (curtToken ps) = DIVIDE")
      case False
      with r[unfolded parseTerm_loop.simps[of A node ps]] show ?thesis by auto
    next
      case True
      with r[unfolded parseTerm_loop.simps[of A node ps]]
      obtain ps1 rhs ps2 where c: "consume (type (curtToken ps)) ps = Inr ps1"
        and t: "parseFactor A ps1 = Inr (rhs, ps2)"
        and l: "parseTerm_loop A (BinaryOpNode (type (curtToken ps)) node rhs) ps2 = Inr (n, ps')"
        by (auto simp: Let_def split: sum.splits)
      with 4(2)[OF True refl c t refl] l show ?thesis by simp
    qed
  qed
qed simp_all

lemma Parser_new_Ans:
  "Parser_new (''Ans = '' @ line) =
     Inr \<lparr>lexer = \<lparr>input = ''Ans = '' @ line, pos = 3\<rparr>, curtToken = Token IDENTIFIER ''Ans''\<rparr>"
  by (simp add: lex_simps)

lemma consume_Ans:
  "consume IDENTIFIER
     \<lparr>lexer = \<lparr>input = ''Ans = '' @ line, pos = 3\<rparr>, curtToken = Token IDENTIFIER ''Ans''\<rparr> =
   Inr \<lparr>lexer = \<lparr>input = ''Ans = '' @ line, pos = 5\<rparr>, curtToken = Token EQUAL []\<rparr>"
  by (simp add: lex_simps)

lemma parse_Ans_line:
  assumes "Parser_new (''Ans = '' @ line) = Inr ps" and "parseExpression A ps = Inr (e, ps')"
  shows "\<exists>v. e = AssignmentNode ''Ans'' v"
proof -
  let ?ps1 = "\<lparr>lexer = \<lparr>input = ''Ans = '' @ line, pos = 5\<rparr>, curtToken = Token EQUAL []\<rparr>"
  from assms(1) have ps: "ps = \<lparr>lexer = \<lparr>input = ''Ans = '' @ line, pos = 3\<rparr>,
      curtToken = Token IDENTIFIER ''Ans''\<rparr>"
    unfolding Parser_new_Ans by simp
  from assms(2)[unfolded parseExpression.simps[of A ps]]
  obtain n1 q1 where t: "parseTerm A ps = Inr (n1, q1)"
    and el: "parseExpression_loop A n1 q1 = Inr (e, ps')"
    by (auto split: sum.splits)
  from t[unfolded parseTerm.simps[of A ps]]
  obtain n0 q0 where f: "parseFactor A ps = Inr (n0, q0)"
    and tl: "parseTerm_loop A n0 q0 = Inr (n1, q1)"
    by (auto split: sum.splits)
  have "parseFactor A ps =
      (case consume EQUAL ?ps1 of
         Inl e \<Rightarrow> Inl e
       | Inr ps2 \<Rightarrow>
           (case parseExpression A ps2 of
              Inl e \<Rightarrow> Inl e
            | Inr (v, ps3) \<Rightarrow> Inr (AssignmentNode ''Ans'' v, ps3)))"
    by (subst parseFactor.simps) (simp add: ps consume_Ans [simplified])
  with f obtain ps2 v where e2: "parseExpression A ps2 = Inr (v, q0)"
    and n0: "n0 = AssignmentNode ''Ans'' v"
    by (auto split: sum.splits)
  from after_parse(1)[of A ps2] e2 have s: "stops q0" by simp
  from tl[unfolded parseTerm_loop.simps[of A n0 q0]] s have 1: "n1 = n0" "q1 = q0"
    by (auto simp: stops_def)
  from el[unfolded parseExpression_loop.simps[of A n1 q1]] s 1 have "e = n0"
    by (auto simp: stops_def)
  with n0 show ?thesis by simp
qed

lemma calculate_Ans:
  assumes "calculate A ord (''Ans = '' @ line) vs = (Inr v, vs')"
  shows "umapsd_find vs' ''Ans'' = Some v"
proof -
  from assms obtain ps e ps' where p: "Parser_new (''Ans = '' @ line) = Inr ps"
    and e: "parseExpression A ps = Inr (e, ps')"
    and ev: "evaluate A ord e vs = (Inr v, vs')"
    by (auto simp: calculate_def split: sum.splits)
  from parse_Ans_line[OF p e] obtain rhs where "e = AssignmentNode ''Ans'' rhs" ..
  with ev show ?thesis
    by (auto simp: comp_simps split: prod.splits sum.splits)
qed

text \<open>
  C3. A line that is not empty and does not begin with a colon is evaluated as \<open>Ans = \<close>
  followed by the line. When that succeeds with the value \<open>v\<close>, the driver goes on with the
  environment the evaluation left, prints the value when it is interactive, and \<open>Ans\<close> is
  bound to \<open>v\<close> there: the expression parsed from such a string is always an assignment to
  \<open>Ans\<close>. After \<open>3 + 4\<close> the line \<open>Ans\<close> gives 7; the line \<open>x = 5\<close> leaves both \<open>Ans\<close> and \<open>x\<close>
  bound to 5.
\<close>

theorem line_assigns_Ans:
  assumes "line \<noteq> []" and "hd line \<noteq> CHR '':''"
    and "calculate A ord (''Ans = '' @ line) (variables w) = (Inr v, vs')"
  shows "process_line A ord fs line write opts depth w =
           Inr (Continue (if write then print (Cout_Ans v) (w\<lparr>variables := vs'\<rparr>)
                          else w\<lparr>variables := vs'\<rparr>)) \<and>
         umapsd_find vs' ''Ans'' = Some v"
  using assms calculate_Ans[OF assms(3)] by (simp add: process_line.simps)

theorem line_assigns_Ans_witness:
  "process_loop exact_ops as_written no_files [''3 + 4'', ''Ans''] True default_options 0
     initial_world =
   Inr \<lparr>variables = [(''Ans'', Exact 7), (''Ans'', Exact 7), (''Ans'', Exact 0)],
        printed = [Cout ''> '', Cout_Ans (Exact 7), Cout ''> '', Cout_Ans (Exact 7), Cout ''> '']\<rparr> \<and>
   calculate exact_ops as_written (''Ans = '' @ ''x = 5'') (variables initial_world) =
     (Inr (Exact 5), [(''Ans'', Exact 5), (''x'', Exact 5), (''Ans'', Exact 0)]) \<and>
   process_line exact_ops as_written no_files ''x = 5'' True default_options 0 initial_world =
     Inr (Continue
       \<lparr>variables = [(''Ans'', Exact 5), (''x'', Exact 5), (''Ans'', Exact 0)],
        printed = [Cout_Ans (Exact 5)]\<rparr>) \<and>
   umapsd_find [(''Ans'', Exact 5), (''x'', Exact 5), (''Ans'', Exact 0)] ''Ans'' = Some (Exact 5) \<and>
   umapsd_find [(''Ans'', Exact 5), (''x'', Exact 5), (''Ans'', Exact 0)] ''x'' = Some (Exact 5)"
proof -
  have a: "''x = 5'' \<noteq> []" and b: "hd ''x = 5'' \<noteq> CHR '':''"
    by simp_all
  have c: "calculate exact_ops as_written (''Ans = '' @ ''x = 5'') (variables initial_world) =
     (Inr (Exact 5), [(''Ans'', Exact 5), (''x'', Exact 5), (''Ans'', Exact 0)])"
    by (simp add: calculate_def parse_simps lex_simps comp_simps exact_simps initial_world_def)
  note t = line_assigns_Ans [OF a b c, of no_files True default_options 0]
  have d: "process_loop exact_ops as_written no_files [''3 + 4'', ''Ans''] True default_options 0
     initial_world =
   Inr \<lparr>variables = [(''Ans'', Exact 7), (''Ans'', Exact 7), (''Ans'', Exact 0)],
        printed = [Cout ''> '', Cout_Ans (Exact 7), Cout ''> '', Cout_Ans (Exact 7), Cout ''> '']\<rparr>"
    by (simp add: process_simps calculate_def parse_simps lex_simps comp_simps exact_simps
        initial_world_def print_def default_options_def)
  have e: "umapsd_find [(''Ans'', Exact 5), (''x'', Exact 5), (''Ans'', Exact 0)] ''x'' = Some (Exact 5)"
    by (simp add: umapsd_find_def)
  from t c d e show ?thesis
    by (simp add: print_def initial_world_def)
qed

section \<open>Precedence and associativity\<close>











section \<open>Assignments are committed in the order of the walk\<close>

lemma commits_ret: "commits (ret a) []"
  by (simp add: commits_def ret_def)

lemma commits_throw: "commits (throw e) names"
  by (simp add: commits_def throw_def)

lemma commits_bind:
  assumes "commits m n1" and "\<And>a. commits (f a) n2"
  shows "commits (bind m f) (n1 @ n2)"
  unfolding commits_def
proof (intro allI impI)
  fix vs r vs'
  assume b: "bind m f vs = (r, vs')"
  obtain r1 vs1 where m: "m vs = (r1, vs1)" by (cases "m vs")
  from assms(1)[unfolded commits_def, rule_format, OF m]
  obtain cs1 where vs1: "vs1 = cs1 @ vs"
    and p1: "prefix (rev (map fst cs1)) n1"
    and s1: "\<forall>a. r1 = Inr a \<longrightarrow> rev (map fst cs1) = n1"
    by (elim exE conjE)
  show "\<exists>cs. vs' = cs @ vs \<and> prefix (rev (map fst cs)) (n1 @ n2) \<and>
             (\<forall>a. r = Inr a \<longrightarrow> rev (map fst cs) = n1 @ n2)"
  proof (cases r1)
    case (Inl e)
    with b m have "r = Inl e" "vs' = vs1" by (simp_all add: bind_def)
    with vs1 p1 show ?thesis by (auto intro: prefix_prefix)
  next
    case (Inr a)
    with b m have f: "f a vs1 = (r, vs')" by (simp add: bind_def)
    from assms(2)[of a, unfolded commits_def, rule_format, OF f]
    obtain cs2 where vs': "vs' = cs2 @ vs1"
      and p2: "prefix (rev (map fst cs2)) n2"
      and s2: "\<forall>a. r = Inr a \<longrightarrow> rev (map fst cs2) = n2"
      by (elim exE conjE)
    from s1 Inr have e1: "rev (map fst cs1) = n1" by simp
    have "vs' = (cs2 @ cs1) @ vs" using vs' vs1 by simp
    moreover have "prefix (rev (map fst (cs2 @ cs1))) (n1 @ n2)"
      using e1 p2 by simp
    moreover have "\<forall>a. r = Inr a \<longrightarrow> rev (map fst (cs2 @ cs1)) = n1 @ n2"
      using e1 s2 by simp
    ultimately show ?thesis by blast
  qed
qed

lemma commits_bind_pure:
  assumes "commits m n" and "\<And>a. commits (f a) []"
  shows "commits (bind m f) n"
  using commits_bind[OF assms] by simp

lemma commits_operands:
  assumes "commits m1 n1" and "commits m2 n2"
  shows "commits (operands FirstWrittenFirst m1 m2) (n1 @ n2)"
    and "commits (operands SecondWrittenFirst m1 m2) (n2 @ n1)"
proof -
  have "commits (bind m1 (\<lambda>x. bind m2 (\<lambda>y. ret (x, y)))) (n1 @ n2)"
    by (intro commits_bind commits_bind_pure commits_ret assms)
  then show "commits (operands FirstWrittenFirst m1 m2) (n1 @ n2)" by simp
  have "commits (bind m2 (\<lambda>y. bind m1 (\<lambda>x. ret (x, y)))) (n2 @ n1)"
    by (intro commits_bind commits_bind_pure commits_ret assms)
  then show "commits (operands SecondWrittenFirst m1 m2) (n2 @ n1)" by simp
qed

lemma commits_assign: "commits (\<lambda>variables. ret v (umapsd_assign name v variables)) [name]"
  by (simp add: commits_def ret_def umapsd_assign_def)

lemma commits_lookup:
  "commits (\<lambda>variables. case umapsd_find variables name of
              None \<Rightarrow> throw e variables | Some v \<Rightarrow> ret v variables) []"
  by (simp add: commits_def ret_def throw_def split: option.split)

lemma commits_if: "commits a n \<Longrightarrow> commits b n \<Longrightarrow> commits (if c then a else b) n"
  by simp

lemma commits_case_prod: "(\<And>a b. commits (f a b) n) \<Longrightarrow> commits (case p of (a, b) \<Rightarrow> f a b) n"
  by (cases p) simp

lemma commits_evaluate: "commits (evaluate A ord t) (walk ord t)"
proof (induction t)
  case (NumberNode v)
  show ?case by (simp add: commits_ret)
next
  case (VariableNode name)
  show ?case by (simp add: commits_lookup)
next
  case (AssignmentNode name t)
  then show ?case by (simp add: commits_bind commits_assign)
next
  case (FunctionCallNode functionName args)
  consider (zero) "args = []" | (one) a where "args = [a]" | (two) a b where "args = [a, b]"
    | (more) a b c rest where "args = a # b # c # rest"
    by (cases args rule: list.exhaust, simp, rename_tac a as, case_tac as, simp,
        rename_tac b bs, case_tac bs, auto)
  then show ?case
  proof cases
    case zero
    then show ?thesis by (simp add: commits_throw)
  next
    case one
    with FunctionCallNode have a: "commits (evaluate A ord a) (walk ord a)" by simp
    show ?thesis
      unfolding one evaluate.simps walk.simps
      by (intro commits_if commits_bind_pure commits_ret commits_throw a)
  next
    case two
    with FunctionCallNode have a: "commits (evaluate A ord a) (walk ord a)"
      and b: "commits (evaluate A ord b) (walk ord b)"
      by simp_all
    note pure = commits_bind_pure commits_case_prod commits_ret
    have l: "commits (bind (operands (ord ''log'') (evaluate A ord b) (evaluate A ord a))
               (\<lambda>(x, b). ret (fp_div A (std_log A x) (std_log A b))))
             (case ord ''log'' of
                FirstWrittenFirst \<Rightarrow> walk ord b @ walk ord a
              | SecondWrittenFirst \<Rightarrow> walk ord a @ walk ord b)"
      by (cases "ord ''log''") (simp_all only: operand_order.case, (intro pure commits_operands a b)+)
    have o: "\<And>g. commits (bind (operands (ord functionName) (evaluate A ord a) (evaluate A ord b))
               (\<lambda>(x, y). ret (g x y)))
             (case ord functionName of
                FirstWrittenFirst \<Rightarrow> walk ord a @ walk ord b
              | SecondWrittenFirst \<Rightarrow> walk ord b @ walk ord a)"
      by (cases "ord functionName") (simp_all only: operand_order.case, (intro pure commits_operands a b)+)
    show ?thesis
    proof (cases "functionName = ''log''")
      case True
      with l show ?thesis by (simp add: two)
    next
      case False
      then show ?thesis
        using o[of "std_pow A"] o[of "std_fmod A"]
        by (auto simp: two commits_throw)
    qed
  next
    case more
    then show ?thesis by (simp add: commits_throw)
  qed
next
  case (UnaryOpNode op t)
  then show ?case by (simp add: commits_bind_pure commits_ret commits_throw)
next
  case (BinaryOpNode op l r)
  have "commits (evaluate A ord (BinaryOpNode op l r)) (walk ord l @ walk ord r)"
    unfolding evaluate.simps
    by (intro commits_bind commits_bind_pure commits_if commits_ret commits_throw BinaryOpNode)
  then show ?case by simp
qed

text \<open>
  X3. Whatever the evaluation of a tree returns, the environment it leaves is the one it
  was given with the committed assignments on top, newest first, and their targets in the
  order of the walk: all of them when the evaluation succeeds, the first ones when it
  fails. A binary operator commits the assignments of its left operand before those of
  its right operand, an assignment those of its right-hand side before its own. For the
  two arguments of a call the walk follows the order the build evaluates them in.
\<close>

theorem assignments_commit_in_walk_order:
  assumes "evaluate A ord t vs = (r, vs')"
  shows "\<exists>cs. vs' = cs @ vs \<and> prefix (rev (map fst cs)) (walk ord t) \<and>
              (\<forall>v. r = Inr v \<longrightarrow> rev (map fst cs) = walk ord t)"
  using commits_evaluate[of A ord t, unfolded commits_def, rule_format, OF assms] .

theorem assignments_commit_in_walk_order_witness:
  "evaluate exact_ops as_written
     (BinaryOpNode PLUS (AssignmentNode ''x'' (NumberNode (Exact 1)))
        (BinaryOpNode MULTIPLY (AssignmentNode ''y'' (NumberNode (Exact 2)))
           (AssignmentNode ''x'' (NumberNode (Exact 3))))) [] =
     (Inr (Exact 7), [(''x'', Exact 3), (''y'', Exact 2), (''x'', Exact 1)]) \<and>
   rev (map fst [(''x'', Exact 3), (''y'', Exact 2), (''x'', Exact 1)]) =
     walk as_written
       (BinaryOpNode PLUS (AssignmentNode ''x'' (NumberNode (Exact 1)))
          (BinaryOpNode MULTIPLY (AssignmentNode ''y'' (NumberNode (Exact 2)))
             (AssignmentNode ''x'' (NumberNode (Exact 3))))) \<and>
   walk as_written
       (BinaryOpNode PLUS (AssignmentNode ''x'' (NumberNode (Exact 1)))
          (BinaryOpNode MULTIPLY (AssignmentNode ''y'' (NumberNode (Exact 2)))
             (AssignmentNode ''x'' (NumberNode (Exact 3))))) = [''x'', ''y'', ''x'']"
proof -
  let ?t = "BinaryOpNode PLUS (AssignmentNode ''x'' (NumberNode (Exact 1)))
        (BinaryOpNode MULTIPLY (AssignmentNode ''y'' (NumberNode (Exact 2)))
           (AssignmentNode ''x'' (NumberNode (Exact 3))))"
  let ?vs = "[(''x'', Exact 3), (''y'', Exact 2), (''x'', Exact (1::rat))]"
  have a: "evaluate exact_ops as_written ?t [] = (Inr (Exact 7), ?vs)"
    by (simp add: comp_simps exact_ops_def)
  from assignments_commit_in_walk_order [OF a]
  obtain cs where c: "?vs = cs @ []"
    and d: "\<forall>v. (Inr (Exact 7) :: error + xval) = Inr v \<longrightarrow> rev (map fst cs) = walk as_written ?t"
    by (elim exE conjE)
  from c d have b: "rev (map fst ?vs) = walk as_written ?t"
    by simp
  have w: "walk as_written ?t = [''x'', ''y'', ''x'']"
    by simp
  show ?thesis
    by (rule conjI [OF a conjI [OF b w]])
qed

text \<open>
  C4 does not hold of the code. \<^verbatim>\<open>FunctionCallNode::evaluate\<close> evaluates the two
  arguments of \<open>log\<close>, \<open>pow\<close> and \<open>mod\<close> inside one C++ expression, which does not
  sequence them, where \<^verbatim>\<open>BinaryOpNode::evaluate\<close> evaluates the left operand in a
  statement of its own before the right one. With the operands evaluated as they are
  written, \<open>log(x = 2, x = 3)\<close> commits the assignment of its second argument first: the
  newest binding of \<open>x\<close> is 2. With them evaluated from the last to the first,
  \<open>pow(x = 2, x = 3)\<close> does, and \<open>pow(x = 2, x)\<close> fails, because \<open>x\<close> is read before it is
  assigned. Evaluating the first argument first would leave \<open>x\<close> at 3 in both, and make
  the third the power of 2 and 2.
\<close>

theorem call_arguments_not_sequenced:
  "calculate exact_ops as_written ''log(x = 2, x = 3)'' [] =
     (Inr (Apply ''/'' [Apply ''log'' [Exact 3], Apply ''log'' [Exact 2]]),
      [(''x'', Exact 2), (''x'', Exact 3)]) \<and>
   calculate exact_ops reversed ''pow(x = 2, x = 3)'' [] =
     (Inr (Apply ''pow'' [Exact 2, Exact 3]), [(''x'', Exact 2), (''x'', Exact 3)]) \<and>
   calculate exact_ops reversed ''pow(x = 2, x)'' [] =
     (Inl (runtime_error ''Undefined variable: x''), []) \<and>
   calculate exact_ops as_written ''pow(x = 2, x)'' [] =
     (Inr (Apply ''pow'' [Exact 2, Exact 2]), [(''x'', Exact 2)])"
  by (simp add: calculate_def parse_simps lex_simps comp_simps exact_simps
      as_written_def reversed_def)

end
